theory Spec2Isabelle
  imports Main "HOL-Library.Word"
begin

section \<open>JavaScript values of the compiler module\<close>

type_synonym byte = "8 word"

text \<open>
  An object that the code enumerates (\<^verbatim>\<open>Object.entries\<close>, \<^verbatim>\<open>Object.values\<close>,
  \<^verbatim>\<open>Object.keys\<close>) is the list of its own enumerable properties in enumeration order;
  an object has every key once. An object under construction by a \<^verbatim>\<open>reduce\<close> is a
  map from keys to values.
\<close>

type_synonym 'v object = "(string \<times> 'v) list"

text \<open>
  An optional property of a script definition is absent, present with the value
  \<^verbatim>\<open>undefined\<close>, or present with a value: the code tests both
  \<^verbatim>\<open>'unlocks' in def\<close> and \<^verbatim>\<open>def.unlocks !== undefined\<close>.
\<close>

datatype 'a property = Absent | Undefined | Defined 'a

definition has_property :: "'a property \<Rightarrow> bool" where
  "has_property p = (p \<noteq> Absent)"

text \<open>Reading a property: \<open>None\<close> is JavaScript's \<^verbatim>\<open>undefined\<close>.\<close>

fun property_value :: "'a property \<Rightarrow> 'a option" where
  "property_value Absent = None"
| "property_value Undefined = None"
| "property_value (Defined v) = Some v"

section \<open>Authentication templates (compiler.ts, lines 118-185)\<close>

record ('l, 't) AuthenticationTemplateScript =
  script :: string
  unlocks :: "string property"
  timeLockType :: "'t property"
  lockingType :: "'l property"

text \<open>\<^verbatim>\<open>entity.variables\<close> may be \<^verbatim>\<open>undefined\<close> (the code writes \<^verbatim>\<open>entity.variables ?? {}\<close>).\<close>

record 'v AuthenticationTemplateEntity =
  entity_variables :: "'v object option"

record ('v, 'l, 't) AuthenticationTemplate =
  template_entities :: "'v AuthenticationTemplateEntity object"
  template_scripts :: "('l, 't) AuthenticationTemplateScript object"

text \<open>The six properties of \<^verbatim>\<open>CompilationEnvironment\<close> that the function returns.\<close>

record ('v, 'l, 't) CompilationEnvironment =
  entityOwnership :: "string \<rightharpoonup> string"
  lockingScriptTypes :: "string \<rightharpoonup> 'l"
  scripts :: "string \<rightharpoonup> string"
  unlockingScriptTimeLockTypes :: "string \<rightharpoonup> 't"
  unlockingScripts :: "string \<rightharpoonup> string"
  variables :: "string \<rightharpoonup> 'v"

text \<open>
  \<^verbatim>\<open>{ ...all, ...obj }\<close>: the properties of \<open>obj\<close> are copied over \<open>all\<close> one by one, in
  enumeration order; spreading \<^verbatim>\<open>undefined\<close> copies nothing.
\<close>

definition spread :: "(string \<rightharpoonup> 'v) \<Rightarrow> 'v object \<Rightarrow> (string \<rightharpoonup> 'v)" where
  "spread all obj = foldl (\<lambda>m (k, v). m(k \<mapsto> v)) all obj"

definition spread_optional :: "(string \<rightharpoonup> 'v) \<Rightarrow> 'v object option \<Rightarrow> (string \<rightharpoonup> 'v)" where
  "spread_optional all obj = (case obj of None \<Rightarrow> all | Some props \<Rightarrow> spread all props)"

text \<open>\<^verbatim>\<open>Object.keys(entity.variables ?? {})\<close>\<close>

definition variable_keys :: "'v object option \<Rightarrow> string list" where
  "variable_keys vars = map fst (case vars of None \<Rightarrow> [] | Some props \<Rightarrow> props)"

definition authenticationTemplateToCompilationEnvironment ::
  "('v, 'l, 't) AuthenticationTemplate \<Rightarrow> ('v, 'l, 't) CompilationEnvironment" where
  "authenticationTemplateToCompilationEnvironment template =
    (let scripts =
           foldl (\<lambda>all (scriptId, def). all(scriptId \<mapsto> script def))
             Map.empty (template_scripts template);
         variables =
           foldl (\<lambda>all entity. spread_optional all (entity_variables entity))
             Map.empty (map snd (template_entities template));
         entityOwnership =
           foldl (\<lambda>all (entityId, entity).
                all ++ foldl (\<lambda>entityVariables variableId. entityVariables(variableId \<mapsto> entityId))
                         Map.empty (variable_keys (entity_variables entity)))
             Map.empty (template_entities template);
         unlockingScripts =
           foldl (\<lambda>all (scriptId, def).
                if has_property (unlocks def) \<and> property_value (unlocks def) \<noteq> None
                then all(scriptId := property_value (unlocks def)) else all)
             Map.empty (template_scripts template);
         unlockingScriptTimeLockTypes =
           foldl (\<lambda>all (scriptId, def).
                if has_property (timeLockType def) \<and> property_value (timeLockType def) \<noteq> None
                then all(scriptId := property_value (timeLockType def)) else all)
             Map.empty (template_scripts template);
         lockingScriptTypes =
           foldl (\<lambda>all (scriptId, def).
                if has_property (lockingType def) \<and> property_value (lockingType def) \<noteq> None
                then all(scriptId := property_value (lockingType def)) else all)
             Map.empty (template_scripts template)
     in \<lparr> entityOwnership = entityOwnership,
          lockingScriptTypes = lockingScriptTypes,
          scripts = scripts,
          unlockingScriptTimeLockTypes = unlockingScriptTimeLockTypes,
          unlockingScripts = unlockingScripts,
          variables = variables \<rparr>)"

section \<open>The compiler (compiler.ts, lines 34-106)\<close>

text \<open>
  The result of \<^verbatim>\<open>compileScript\<close>: its type is declared outside the two files at hand.
  It is a discriminated union on \<^verbatim>\<open>success\<close>; the success variant has \<^verbatim>\<open>bytecode\<close>, the
  failure variant \<^verbatim>\<open>errorType\<close> and \<^verbatim>\<open>errors\<close>, and both carry the artifacts of the
  compilation (parse tree, resolution, reduction trace) that debugging tools read.
\<close>

datatype ('k, 'e, 'a) CompilationResult =
    CompilationResultSuccess "byte list" 'a
  | CompilationResultError 'k "'e list" 'a

text \<open>
  What \<^verbatim>\<open>generateBytecode\<close> returns (declared \<^verbatim>\<open>any\<close>): the result of
  \<^verbatim>\<open>compileScript\<close> itself when debugging, \<^verbatim>\<open>{ bytecode, success: true }\<close> or
  \<^verbatim>\<open>{ errorType, errors, success: false }\<close> otherwise.
\<close>

datatype ('k, 'e, 'a) BytecodeGenerationResult =
    DebugResult "('k, 'e, 'a) CompilationResult"
  | BytecodeSuccess "byte list"
  | BytecodeError 'k "'e list"

text \<open>
  \<^verbatim>\<open>compileScript\<close> is imported from \<^verbatim>\<open>./language/compile\<close> and is a parameter here. A
  call of it either returns a compilation result or throws (\<open>Inl\<close>, with the value
  thrown). It receives the environment object by reference, so next to that outcome it
  gives the content of the environment object when the call ends.
\<close>

type_synonym ('d, 'env, 'x, 'k, 'e, 'a) compileScript =
  "string \<Rightarrow> 'd \<Rightarrow> 'env \<Rightarrow> ('x + ('k, 'e, 'a) CompilationResult) \<times> 'env"

text \<open>
  The compiler object. Its \<^verbatim>\<open>environment\<close> property and the variable
  \<^verbatim>\<open>compilationEnvironment\<close> that the closure \<^verbatim>\<open>generateBytecode\<close> captures are the
  same object, so the state of a compiler is that object.
\<close>

record 'env Compiler =
  environment :: 'env

definition createCompiler :: "'env \<Rightarrow> 'env Compiler" where
  "createCompiler compilationEnvironment = \<lparr> environment = compilationEnvironment \<rparr>"

text \<open>
  \<^verbatim>\<open>generateBytecode\<close> (lines 42-61). The parameter \<^verbatim>\<open>debug: boolean = false\<close>: an omitted
  argument is \<open>None\<close>. The body has no \<^verbatim>\<open>try\<close>: when \<^verbatim>\<open>compileScript\<close> throws, the
  statement after the call is not reached and the value thrown leaves
  \<^verbatim>\<open>generateBytecode\<close> as it is.
\<close>

definition generateBytecode ::
  "('d, 'env, 'x, 'k, 'e, 'a) compileScript \<Rightarrow> 'env Compiler \<Rightarrow> string \<Rightarrow> 'd \<Rightarrow> bool option \<Rightarrow>
   ('x + ('k, 'e, 'a) BytecodeGenerationResult) \<times> 'env Compiler" where
  "generateBytecode compileScript compiler scriptId data debugArgument =
    (let debug = (case debugArgument of None \<Rightarrow> False | Some b \<Rightarrow> b);
         (outcome, environment') = compileScript scriptId data (environment compiler)
     in ((case outcome of
            Inl thrown \<Rightarrow> Inl thrown
          | Inr result \<Rightarrow>
              Inr (if debug then DebugResult result
                   else (case result of
                           CompilationResultSuccess bytecode _ \<Rightarrow> BytecodeSuccess bytecode
                         | CompilationResultError errorType errors _ \<Rightarrow>
                             BytecodeError errorType errors))),
         compiler\<lparr> environment := environment' \<rparr>))"

text \<open>
  \<^verbatim>\<open>createCompilerCommonSynchronous\<close> builds a new environment object with two spreads: an
  environment is here the map from property names to values. The three defaults
  (\<^verbatim>\<open>compilerCreateStateCommon\<close>, \<^verbatim>\<open>generateBytecodeMap(OpcodesCommon)\<close>,
  \<^verbatim>\<open>compilerOperationsCommon\<close>) are values of other modules and are parameters.
\<close>

definition createCompilerCommonSynchronous ::
  "'v \<Rightarrow> 'v \<Rightarrow> 'v \<Rightarrow> (string \<rightharpoonup> 'v) \<Rightarrow> (string \<rightharpoonup> 'v) Compiler" where
  "createCompilerCommonSynchronous compilerCreateStateCommon opcodesCommon compilerOperationsCommon
       scriptsAndOverrides =
     createCompiler
       ([''createState'' \<mapsto> compilerCreateStateCommon,
         ''opcodes'' \<mapsto> opcodesCommon,
         ''operations'' \<mapsto> compilerOperationsCommon]
        ++ scriptsAndOverrides)"

section \<open>The compilation pipeline (spec, sections 3 and 4)\<close>

text \<open>
  \<^verbatim>\<open>compileScript\<close> lives in \<^verbatim>\<open>./language/compile\<close>: the lexer, the parser, the resolver
  and the bytecode generator are not in compiler.ts. The definitions of this section are
  modelled from the specification; the tests of compiler.e2e.langauge.spec.ts fix the
  opcode bytes the specification leaves unnamed.
\<close>

text \<open>
  Modelled from the spec: the error taxonomy of section 7 (the type of compile errors
  is declared outside the source files).
\<close>

datatype compile_error =
    LexError | ParseError | ResolutionError string | EvaluationExecutionError | EncodingError

text \<open>
  Modelled from the spec: the tokens of section 3 (the lexer's token type is missing).
  Identifiers and opcode names have one lexical form and are one kind of token; white
  space carries no value and yields no token; source ranges, which only error reports
  read, are left out.
\<close>

datatype token =
    TokIdentifier string
  | TokBigInt int
  | TokHex string
  | TokUtf8 string
  | TokPushOpen | TokPushClose
  | TokEvaluationOpen | TokEvaluationClose
  | TokComment string

text \<open>
  Modelled from the spec: white space of the lexer of section 4.1 (missing),
  "whitespace/newlines separate tokens and carry no value". Characters are the bytes of
  the UTF-8 source text.
\<close>

definition is_whitespace :: "char \<Rightarrow> bool" where
  "is_whitespace c = (c = CHR '' '' \<or> c = CHR 0x09 \<or> c = CHR 0x0A \<or> c = CHR 0x0D)"

text \<open>
  Modelled from the spec: the digits of a decimal integer literal (lexer of section 4.1,
  missing).
\<close>

definition is_digit :: "char \<Rightarrow> bool" where
  "is_digit c = (48 \<le> (of_char c :: nat) \<and> (of_char c :: nat) \<le> 57)"

text \<open>
  Modelled from the spec: the digits of a hexadecimal literal, in either case (lexer of
  section 4.1, missing).
\<close>

definition is_hex_digit :: "char \<Rightarrow> bool" where
  "is_hex_digit c = (is_digit c \<or> (97 \<le> (of_char c :: nat) \<and> (of_char c :: nat) \<le> 102)
                      \<or> (65 \<le> (of_char c :: nat) \<and> (of_char c :: nat) \<le> 70))"

text \<open>
  Modelled from the spec: the first character of an identifier or opcode name,
  \<^verbatim>\<open>[A-Za-z_]\<close> (lexer of section 4.1, missing).
\<close>

definition is_identifier_start :: "char \<Rightarrow> bool" where
  "is_identifier_start c = ((65 \<le> (of_char c :: nat) \<and> (of_char c :: nat) \<le> 90)
      \<or> (97 \<le> (of_char c :: nat) \<and> (of_char c :: nat) \<le> 122) \<or> c = CHR ''_'')"

text \<open>
  Modelled from the spec: the further characters of an identifier or opcode name,
  \<^verbatim>\<open>[A-Za-z0-9_]\<close> (lexer of section 4.1, missing).
\<close>

definition is_identifier_char :: "char \<Rightarrow> bool" where
  "is_identifier_char c = (is_identifier_start c \<or> is_digit c)"

text \<open>
  Modelled from the spec: the characters of a line comment, "\<^verbatim>\<open>//\<close> to end of line"
  (lexer of section 4.1, missing).
\<close>

definition not_newline :: "char \<Rightarrow> bool" where
  "not_newline c = (c \<noteq> CHR 0x0A)"

text \<open>
  Modelled from the spec: "signed decimal integers" (lexer of section 4.1, missing): a
  \<^verbatim>\<open>-\<close> starts an integer literal when a digit follows it.
\<close>

definition starts_with_digit :: "string \<Rightarrow> bool" where
  "starts_with_digit cs = (case cs of [] \<Rightarrow> False | d # _ \<Rightarrow> is_digit d)"

text \<open>Modelled from the spec: the value of a decimal integer literal (lexer, missing).\<close>

definition decimal_value :: "string \<Rightarrow> nat" where
  "decimal_value ds = foldl (\<lambda>n c. 10 * n + (of_char c - 48)) 0 ds"

text \<open>
  Modelled from the spec: block comments of section 4.1 (lexer, missing), "first
  terminator closes, no nesting". Given the text after \<^verbatim>\<open>/*\<close>, the result is the
  comment's body and the text after the first \<^verbatim>\<open>*/\<close>.
\<close>

fun block_comment_end :: "string \<Rightarrow> (string \<times> string) option" where
  "block_comment_end (a # b # r) =
     (if a = CHR ''*'' \<and> b = CHR ''/'' then Some ([], r)
      else (case block_comment_end (b # r) of
              None \<Rightarrow> None
            | Some (body, rest) \<Rightarrow> Some (a # body, rest)))"
| "block_comment_end _ = None"

text \<open>
  Modelled from the spec: one step of the lexer of section 4.1 (missing): the end of
  the text, a lexical error, a white space character skipped, or one token and the
  text after it.
\<close>

datatype lex_step = StepEnd | StepFail | StepSkip string | StepToken token string

text \<open>
  Modelled from the spec: a form that is a run of characters of one class (lexer of
  section 4.1, missing) is taken as long as it goes: the token is made of the longest
  prefix of the text in the class, and the text after it follows.
\<close>

definition longest :: "(char \<Rightarrow> bool) \<Rightarrow> (string \<Rightarrow> token) \<Rightarrow> string \<Rightarrow> lex_step" where
  "longest P build cs = StepToken (build (takeWhile P cs)) (dropWhile P cs)"

text \<open>
  Modelled from the spec: comments of section 4.1 (lexer, missing), given the text
  after a first \<^verbatim>\<open>/\<close>: a line comment runs "to end of line", a block comment to its
  first terminator.
\<close>

definition lex_comment :: "string \<Rightarrow> lex_step" where
  "lex_comment cs =
     (case cs of
        [] \<Rightarrow> StepFail
      | c # r \<Rightarrow>
          if c = CHR ''/'' then longest not_newline TokComment r
          else if c = CHR ''*'' then
            (case block_comment_end r of
               None \<Rightarrow> StepFail
             | Some (body, rest) \<Rightarrow> StepToken (TokComment body) rest)
          else StepFail)"

text \<open>
  Modelled from the spec: string literals of section 4.1 (lexer, missing), given the
  opening quote and the text after it: the literal runs to the next occurrence of the
  same quote, "the alternate quote character may appear unescaped inside"; an
  unterminated literal is a lexical error.
\<close>

definition lex_string :: "char \<Rightarrow> string \<Rightarrow> lex_step" where
  "lex_string q cs =
     (if q \<in> set cs
      then StepToken (TokUtf8 (takeWhile (\<lambda>c. c \<noteq> q) cs)) (tl (dropWhile (\<lambda>c. c \<noteq> q) cs))
      else StepFail)"

text \<open>
  Modelled from the spec: the evaluation-open bracket \<^verbatim>\<open>$(\<close> of section 4.1 (lexer,
  missing), given the text after the \<^verbatim>\<open>$\<close>.
\<close>

definition lex_evaluation_open :: "string \<Rightarrow> lex_step" where
  "lex_evaluation_open cs =
     (case cs of
        [] \<Rightarrow> StepFail
      | p # r \<Rightarrow> if p = CHR ''('' then StepToken TokEvaluationOpen r else StepFail)"

text \<open>
  Modelled from the spec: the recognized forms of section 4.1 (lexer, missing): white
  space, comments, push and evaluation brackets, quoted strings, hexadecimal literals
  (\<^verbatim>\<open>0x\<close> and hexadecimal digits: an odd count is an encoding error, sections 4.5 and
  8, so the lexer takes the digits as they come), signed decimal integers, identifiers.
  Any other character is a lexical error.
\<close>

definition lex1 :: "string \<Rightarrow> lex_step" where
  "lex1 s =
     (case s of
        [] \<Rightarrow> StepEnd
      | c # cs \<Rightarrow>
          if is_whitespace c then StepSkip cs
          else if c = CHR ''/'' then lex_comment cs
          else if c = CHR ''<'' then StepToken TokPushOpen cs
          else if c = CHR ''>'' then StepToken TokPushClose cs
          else if c = CHR ''$'' then lex_evaluation_open cs
          else if c = CHR '')'' then StepToken TokEvaluationClose cs
          else if c = CHR 0x27 \<or> c = CHR 0x22 then lex_string c cs
          else if c = CHR ''0'' \<and> take 1 cs = ''x'' then longest is_hex_digit TokHex (tl cs)
          else if is_digit c then
            longest is_digit (\<lambda>ds. TokBigInt (int (decimal_value (c # ds)))) cs
          else if c = CHR ''-'' \<and> starts_with_digit cs then
            longest is_digit (\<lambda>ds. TokBigInt (- int (decimal_value ds))) cs
          else if is_identifier_start c then
            longest is_identifier_char (\<lambda>name. TokIdentifier (c # name)) cs
          else StepFail)"

lemma block_comment_end_length:
  "block_comment_end s = Some (body, rest) \<Longrightarrow> length rest < length s"
  by (induction s arbitrary: body rest rule: block_comment_end.induct)
     (auto split: if_splits option.splits)

lemma longest_length: "longest P build cs = StepToken t r \<Longrightarrow> length r \<le> length cs"
  by (auto simp: longest_def length_dropWhile_le)

lemma lex_comment_length: "lex_comment cs = StepToken t r \<Longrightarrow> length r < length cs"
  by (cases cs)
     (auto simp: lex_comment_def less_Suc_eq_le
       dest!: block_comment_end_length longest_length split: if_splits option.splits)

lemma lex_string_length: "lex_string q cs = StepToken t r \<Longrightarrow> length r < length cs"
proof -
  assume step: "lex_string q cs = StepToken t r"
  then have q: "q \<in> set cs"
    by (auto simp: lex_string_def split: if_splits)
  then have "dropWhile (\<lambda>c. c \<noteq> q) cs \<noteq> []"
    by simp
  then have "length (tl (dropWhile (\<lambda>c. c \<noteq> q) cs)) < length (dropWhile (\<lambda>c. c \<noteq> q) cs)"
    by (cases "dropWhile (\<lambda>c. c \<noteq> q) cs") simp_all
  also have "\<dots> \<le> length cs"
    by (rule length_dropWhile_le)
  finally have "length (tl (dropWhile (\<lambda>c. c \<noteq> q) cs)) < length cs" .
  moreover from step q have "r = tl (dropWhile (\<lambda>c. c \<noteq> q) cs)"
    by (simp add: lex_string_def)
  ultimately show ?thesis by simp
qed

lemma lex_evaluation_open_length: "lex_evaluation_open cs = StepToken t r \<Longrightarrow> length r < length cs"
  by (cases cs) (auto simp: lex_evaluation_open_def split: if_splits)

lemma lex1_skip_length: "lex1 s = StepSkip r \<Longrightarrow> length r < length s"
  by (cases s)
     (auto simp: lex1_def lex_comment_def lex_string_def lex_evaluation_open_def longest_def
        split: list.splits if_splits option.splits)

lemma lex1_token_length: "lex1 s = StepToken t r \<Longrightarrow> length r < length s"
proof (cases s)
  case Nil
  assume "lex1 s = StepToken t r"
  with Nil show ?thesis by (simp add: lex1_def)
next
  case (Cons c cs)
  assume "lex1 s = StepToken t r"
  then have "length r \<le> length cs"
    unfolding Cons lex1_def
    by (auto dest: lex_comment_length lex_string_length lex_evaluation_open_length longest_length
          intro: order.trans [OF _ le_SucI [OF order.refl], of _ "length (tl cs)"]
          split: if_splits)
  with Cons show ?thesis by simp
qed

text \<open>
  Modelled from the spec: \<^verbatim>\<open>tokenize(source)\<close> of section 4.1 (missing): the ordered
  token sequence, or a lexical error at the first unrecognized character or unterminated
  literal. Every step takes at least one character, so the lexer ends on every text.
\<close>

function tokenize :: "string \<Rightarrow> compile_error + token list" where
  "tokenize s =
     (case lex1 s of
        StepEnd \<Rightarrow> Inr []
      | StepFail \<Rightarrow> Inl LexError
      | StepSkip r \<Rightarrow> tokenize r
      | StepToken t r \<Rightarrow> (case tokenize r of Inl e \<Rightarrow> Inl e | Inr ts \<Rightarrow> Inr (t # ts)))"
  by pat_completeness auto
termination
  by (relation "measure length") (auto simp: lex1_skip_length lex1_token_length)

declare tokenize.simps [simp del]

text \<open>
  Modelled from the spec: the comment tokens (section 3, "comments are semantically
  inert and are removed before parsing"; the code between lexer and parser is missing).
\<close>

definition is_comment :: "token \<Rightarrow> bool" where
  "is_comment t = (case t of TokComment _ \<Rightarrow> True | _ \<Rightarrow> False)"

text \<open>
  Modelled from the spec: the removal of comments before parsing (section 3; missing).
\<close>

definition remove_comments :: "token list \<Rightarrow> token list" where
  "remove_comments ts = filter (\<lambda>t. \<not> is_comment t) ts"

text \<open>
  Modelled from the spec: the literals of the syntax tree of section 3,
  \<^verbatim>\<open>Literal(BigInt|Hex|Utf8)\<close> (the parser's node type is missing).
\<close>

datatype literal = BigInt int | Hex string | Utf8 string

text \<open>
  Modelled from the spec: the syntax tree of section 3 (the parser's node type is
  missing): literals, opcode references, identifiers, pushes and evaluations that own
  their children, and the program. The parser cannot tell an opcode name from another
  identifier, so it builds \<open>Identifier\<close> for both and the resolver's lookup order decides.
\<close>

datatype ASTNode =
    Literal literal
  | OpcodeRef string
  | Identifier string
  | Push "ASTNode list"
  | Evaluation "ASTNode list"
  | Program "ASTNode list"

text \<open>
  Modelled from the spec: the two kinds of bracket that nest, \<^verbatim>\<open>< >\<close> and \<^verbatim>\<open>$( )\<close>
  (parser of section 4.2, missing).
\<close>

datatype bracket = PushBracket | EvaluationBracket

text \<open>
  Modelled from the spec: the parser of section 4.2 (missing), for the grammar
  \<^verbatim>\<open>Program := Statement*\<close>, \<^verbatim>\<open>Push := '<' Statement* '>'\<close>,
  \<^verbatim>\<open>Evaluation := '$(' Statement* ')'\<close>, read left to right. \<open>stack\<close> holds the open
  brackets, each with the statements read before it at its level; \<open>acc\<close> holds the
  statements of the current level, last first. An unmatched bracket is a parse error.
\<close>

fun parse_tokens ::
  "(bracket \<times> ASTNode list) list \<Rightarrow> ASTNode list \<Rightarrow> token list \<Rightarrow> compile_error + ASTNode list" where
  "parse_tokens [] acc [] = Inr (rev acc)"
| "parse_tokens (frame # stack) acc [] = Inl ParseError"
| "parse_tokens stack acc (TokPushOpen # ts) = parse_tokens ((PushBracket, acc) # stack) [] ts"
| "parse_tokens stack acc (TokEvaluationOpen # ts) =
     parse_tokens ((EvaluationBracket, acc) # stack) [] ts"
| "parse_tokens stack acc (TokPushClose # ts) =
     (case stack of
        (PushBracket, outer) # stack' \<Rightarrow> parse_tokens stack' (Push (rev acc) # outer) ts
      | _ \<Rightarrow> Inl ParseError)"
| "parse_tokens stack acc (TokEvaluationClose # ts) =
     (case stack of
        (EvaluationBracket, outer) # stack' \<Rightarrow> parse_tokens stack' (Evaluation (rev acc) # outer) ts
      | _ \<Rightarrow> Inl ParseError)"
| "parse_tokens stack acc (TokBigInt v # ts) = parse_tokens stack (Literal (BigInt v) # acc) ts"
| "parse_tokens stack acc (TokHex h # ts) = parse_tokens stack (Literal (Hex h) # acc) ts"
| "parse_tokens stack acc (TokUtf8 u # ts) = parse_tokens stack (Literal (Utf8 u) # acc) ts"
| "parse_tokens stack acc (TokIdentifier name # ts) = parse_tokens stack (Identifier name # acc) ts"
| "parse_tokens stack acc (TokComment c # ts) = parse_tokens stack acc ts"

text \<open>Modelled from the spec: \<^verbatim>\<open>parse(tokens)\<close> of section 4.2 (missing).\<close>

definition parse :: "token list \<Rightarrow> compile_error + ASTNode" where
  "parse ts = (case parse_tokens [] [] ts of Inl e \<Rightarrow> Inl e | Inr statements \<Rightarrow> Inr (Program statements))"

text \<open>
  Modelled from the spec: the magnitude of a script number (section 4.5, bytecode
  generator, missing), "little-endian magnitude, fewest bytes possible": the digits in
  base 256, least significant first; zero has no digit.
\<close>

fun le_digits :: "nat \<Rightarrow> nat list" where
  "le_digits n = (if n = 0 then [] else (n mod 256) # le_digits (n div 256))"

declare le_digits.simps [simp del]

text \<open>
  Modelled from the spec: the sign of a script number (section 4.5, missing), "sign
  communicated via the high bit of the most significant byte (append an extra zero-sign
  byte if the natural top bit would otherwise be mistaken for a sign bit)".
\<close>

definition sign_digits :: "bool \<Rightarrow> nat list \<Rightarrow> nat list" where
  "sign_digits negative ds =
     (if ds = [] then []
      else if 128 \<le> last ds then ds @ [if negative then 128 else 0]
      else if negative then butlast ds @ [last ds + 128]
      else ds)"

text \<open>
  Modelled from the spec: the "minimal signed script-number encoding" of an integer
  literal (section 4.5, bytecode generator, missing).
\<close>

definition encode_script_number :: "int \<Rightarrow> byte list" where
  "encode_script_number v = map of_nat (sign_digits (v < 0) (le_digits (nat \<bar>v\<bar>)))"

text \<open>
  Modelled from the spec: the integers with a dedicated push opcode (section 4.5,
  missing): "an integer in {-1, 1..16}".
\<close>

definition small_integers :: "int list" where
  "small_integers = -1 # [1..16]"

text \<open>
  Modelled from the spec: "the dedicated single-byte push small integer opcode" of an
  integer (section 4.5, missing). The bytes are those of the tests: \<^verbatim>\<open>4f\<close> for -1,
  \<^verbatim>\<open>51\<close> to \<^verbatim>\<open>60\<close> for 1 to 16, and \<^verbatim>\<open>00\<close>, the push of the empty byte array, for 0.
\<close>

definition small_integer_opcode :: "int \<Rightarrow> byte" where
  "small_integer_opcode v = (if v = -1 then 0x4f else if v = 0 then 0x00 else 0x50 + of_int v)"

text \<open>Modelled from the spec: a length in \<open>width\<close> bytes, least significant first (section 4.5, missing).\<close>

definition length_bytes :: "nat \<Rightarrow> nat \<Rightarrow> byte list" where
  "length_bytes width n = map (\<lambda>i. of_nat (n div 256 ^ i)) [0..<width]"

text \<open>
  Modelled from the spec: the minimal push encoding of section 4.5 (bytecode generator,
  missing). Empty content is the single "push empty" byte; content that equals the
  script-number encoding of an integer in {-1, 1..16} is that integer's opcode; other
  content of 1 to 75 bytes is its length byte and the bytes (so a single zero byte is
  \<^verbatim>\<open>01 00\<close>); content of 76 bytes or more has an opcode of the wider family
  (\<^verbatim>\<open>4c\<close>, \<^verbatim>\<open>4d\<close>, \<^verbatim>\<open>4e\<close> in the target machine) and a length of 1, 2 or 4 bytes.
\<close>

definition encode_push :: "byte list \<Rightarrow> compile_error + byte list" where
  "encode_push content =
     (if content = [] then Inr [0x00]
      else (case List.find (\<lambda>v. encode_script_number v = content) small_integers of
              Some v \<Rightarrow> Inr [small_integer_opcode v]
            | None \<Rightarrow>
                if length content \<le> 75 then Inr (of_nat (length content) # content)
                else if length content < 2 ^ 8 then Inr (0x4c # length_bytes 1 (length content) @ content)
                else if length content < 2 ^ 16 then Inr (0x4d # length_bytes 2 (length content) @ content)
                else if length content < 2 ^ 32 then Inr (0x4e # length_bytes 4 (length content) @ content)
                else Inl EncodingError))"

text \<open>
  Modelled from the spec: the value of a hexadecimal digit (section 4.5, missing).
\<close>

definition hex_digit_value :: "char \<Rightarrow> nat" where
  "hex_digit_value c =
     (if is_digit c then of_char c - 48
      else if 97 \<le> (of_char c :: nat) then of_char c - 87
      else of_char c - 55)"

text \<open>
  Modelled from the spec: hexadecimal literals (section 4.5, missing): two digits a
  byte; "odd-length is an EncodingError, not silently padded".
\<close>

fun decode_hex :: "string \<Rightarrow> compile_error + byte list" where
  "decode_hex [] = Inr []"
| "decode_hex [c] = Inl EncodingError"
| "decode_hex (a # b # r) =
     (case decode_hex r of
        Inl e \<Rightarrow> Inl e
      | Inr bytes \<Rightarrow> Inr (of_nat (16 * hex_digit_value a + hex_digit_value b) # bytes))"

text \<open>
  Modelled from the spec: what the resolver and the evaluator get from outside
  (sections 4.3 and 4.4; both missing). \<open>resolveIdentifier\<close> is the lookup of an
  identifier as an opcode, then a variable, then a script, with the operations and the
  compilation of referenced scripts behind it; \<open>evaluate\<close> is the virtual machine, that
  returns the top of the stack or fails. Both are parameters of the pipeline.
\<close>

record resolution =
  resolveIdentifier :: "string \<Rightarrow> compile_error + byte list"
  evaluate :: "byte list \<Rightarrow> byte list option"

text \<open>
  Modelled from the spec: \<^verbatim>\<open>generate\<close> of section 4.5 with the resolution of sections
  4.3 and 4.4 (all missing), innermost first. A bare statement is its bytes; a push is
  the minimal push of its content's bytes; an evaluation is the result of running its
  content's bytes; the bytecode of a sequence is the concatenation in source order. The
  first error ends the compilation.
\<close>

fun generate :: "resolution \<Rightarrow> ASTNode \<Rightarrow> compile_error + byte list"
  and generate_all :: "resolution \<Rightarrow> ASTNode list \<Rightarrow> compile_error + byte list" where
  "generate env (Literal (BigInt v)) = Inr (encode_script_number v)"
| "generate env (Literal (Hex h)) = decode_hex h"
| "generate env (Literal (Utf8 u)) = Inr (map of_char u)"
| "generate env (OpcodeRef name) = resolveIdentifier env name"
| "generate env (Identifier name) = resolveIdentifier env name"
| "generate env (Push children) =
     (case generate_all env children of Inl e \<Rightarrow> Inl e | Inr content \<Rightarrow> encode_push content)"
| "generate env (Evaluation children) =
     (case generate_all env children of
        Inl e \<Rightarrow> Inl e
      | Inr code \<Rightarrow>
          (case evaluate env code of None \<Rightarrow> Inl EvaluationExecutionError | Some result \<Rightarrow> Inr result))"
| "generate env (Program statements) = generate_all env statements"
| "generate_all env [] = Inr []"
| "generate_all env (n # ns) =
     (case generate env n of
        Inl e \<Rightarrow> Inl e
      | Inr bytes \<Rightarrow>
          (case generate_all env ns of Inl e \<Rightarrow> Inl e | Inr following \<Rightarrow> Inr (bytes @ following)))"

text \<open>
  Modelled from the spec: the data flow of section 2 (missing): source, tokens, syntax
  tree, bytecode, or the error of the first stage that fails.
\<close>

definition compile :: "resolution \<Rightarrow> string \<Rightarrow> compile_error + byte list" where
  "compile env source =
     (case tokenize source of
        Inl e \<Rightarrow> Inl e
      | Inr tokens \<Rightarrow>
          (case parse (remove_comments tokens) of
             Inl e \<Rightarrow> Inl e
           | Inr program \<Rightarrow> generate env program))"

section \<open>Vocabulary of the properties\<close>

text \<open>
  The integer that a script number denotes: the inverse of the encoding, used to state
  that the encoding loses nothing. \<open>le_value\<close> reads base-256 digits, least significant
  first.
\<close>

definition le_value :: "nat list \<Rightarrow> nat" where
  "le_value ds = foldr (\<lambda>d n. d + 256 * n) ds 0"

definition decode_digits :: "nat list \<Rightarrow> int" where
  "decode_digits ds =
     (if ds = [] then 0
      else if 128 \<le> last ds then - int (le_value (butlast ds @ [last ds - 128]))
      else int (le_value ds))"

definition decode_script_number :: "byte list \<Rightarrow> int" where
  "decode_script_number bytes = decode_digits (map unat bytes)"

text \<open>
  The decimal numeral of an integer, as it is written in a script: \<open>decimal 17\<close> is
  \<^verbatim>\<open>17\<close> and \<open>decimal (- 1)\<close> is \<^verbatim>\<open>-1\<close>.
\<close>

definition digit_char :: "nat \<Rightarrow> char" where
  "digit_char d = ''0123456789'' ! d"

fun decimal_digits :: "nat \<Rightarrow> string" where
  "decimal_digits n =
     (if n < 10 then [digit_char n] else decimal_digits (n div 10) @ [digit_char (n mod 10)])"

declare decimal_digits.simps [simp del]

definition decimal :: "int \<Rightarrow> string" where
  "decimal v = (if v < 0 then CHR ''-'' # decimal_digits (nat (- v)) else decimal_digits (nat v))"

text \<open>An environment that resolves no identifier and whose machine runs nothing.\<close>

definition no_resolution :: resolution where
  "no_resolution = \<lparr> resolveIdentifier = (\<lambda>name. Inl (ResolutionError name)), evaluate = (\<lambda>code. None) \<rparr>"

text \<open>
  Token boundaries. \<open>lexer_reaches s r\<close>: the lexer, started on the text \<open>s\<close>, is after
  some steps at the start of a token or of white space with the text \<open>r\<close> left to read.
  The position between \<open>a\<close> and \<open>b\<close> in the script \<open>a @ b\<close> is between tokens when
  \<open>lexer_reaches (a @ b) b\<close>.
\<close>

inductive lexer_reaches :: "string \<Rightarrow> string \<Rightarrow> bool" where
  here: "lexer_reaches s s"
| skip: "lex1 s = StepSkip r \<Longrightarrow> lexer_reaches r r' \<Longrightarrow> lexer_reaches s r'"
| token: "lex1 s = StepToken t r \<Longrightarrow> lexer_reaches r r' \<Longrightarrow> lexer_reaches s r'"

text \<open>
  Comments and white space. \<open>blank s r\<close>: the lexer, started on the text \<open>s\<close>, reads
  white space and comments only and has then the text \<open>r\<close> left to read. A text \<open>m\<close> in
  front of \<open>r\<close> is made of comments and white space when \<open>blank (m @ r) r\<close>.
\<close>

inductive blank :: "string \<Rightarrow> string \<Rightarrow> bool" where
  here: "blank s s"
| skip: "lex1 s = StepSkip r \<Longrightarrow> blank r r' \<Longrightarrow> blank s r'"
| comment: "lex1 s = StepToken t r \<Longrightarrow> is_comment t \<Longrightarrow> blank r r' \<Longrightarrow> blank s r'"

text \<open>The tokens that reach the parser: those of the text that are not comments.\<close>

definition significant :: "string \<Rightarrow> compile_error + token list" where
  "significant s = (case tokenize s of Inl e \<Rightarrow> Inl e | Inr ts \<Rightarrow> Inr (remove_comments ts))"

text \<open>
  The text \<open>r'\<close> may stand for the text \<open>r\<close> after the token \<open>x\<close>: it starts with \<^verbatim>\<open>/\<close>
  and \<open>x\<close> is not a line comment, or both texts start with the same character.
\<close>

definition stands_for :: "string \<Rightarrow> string \<Rightarrow> string \<Rightarrow> bool" where
  "stands_for x r r' \<longleftrightarrow>
     r' \<noteq> [] \<and> (hd r' = CHR ''/'' \<and> take 2 x \<noteq> ''//'' \<or> r \<noteq> [] \<and> hd r' = hd r)"

section \<open>Properties of the template conversion\<close>

lemma spread_map_of: "spread all obj = all ++ map_of (rev obj)"
  unfolding spread_def
  by (induction obj arbitrary: all) (auto simp: map_add_def fun_eq_iff split: option.splits)

lemma map_of_rev_distinct: "distinct (map fst xs) \<Longrightarrow> map_of (rev xs) k = map_of xs k"
proof (induction xs)
  case Nil
  then show ?case by simp
next
  case (Cons x xs)
  then have "map_of xs (fst x) = None"
    by (simp add: map_of_eq_None_iff)
  with Cons show ?case
    by (cases x) (auto simp: map_add_def split: option.splits)
qed

lemma spread_lookup:
  "distinct (map fst obj) \<Longrightarrow> spread all obj k = (case map_of obj k of None \<Rightarrow> all k | Some v \<Rightarrow> Some v)"
  by (simp add: spread_map_of map_add_def map_of_rev_distinct)

lemma spread_optional_skip:
  "k \<notin> set (variable_keys vars) \<Longrightarrow> spread_optional m vars k = m k"
proof (cases vars)
  case None
  then show ?thesis by (simp add: spread_optional_def)
next
  case (Some props)
  assume "k \<notin> set (variable_keys vars)"
  then have "k \<notin> fst ` set (rev props)"
    by (simp add: variable_keys_def Some)
  then have "map_of (rev props) k = None"
    by (simp add: map_of_eq_None_iff)
  then show ?thesis
    by (simp add: spread_optional_def Some spread_map_of map_add_def)
qed

lemma keys_fold_lookup:
  "foldl (\<lambda>entityVariables variableId. entityVariables(variableId \<mapsto> entityId)) m ks k =
     (if k \<in> set ks then Some entityId else m k)"
  by (induction ks arbitrary: m) auto

lemma foldl_update_lookup:
  assumes step: "\<And>m i d. F m (i, d) = (case g d of None \<Rightarrow> m | Some v \<Rightarrow> m(i \<mapsto> v))"
    and dist: "distinct (map fst entries)"
  shows "foldl F m entries k =
     (case map_of entries k of None \<Rightarrow> m k
      | Some d \<Rightarrow> (case g d of None \<Rightarrow> m k | Some v \<Rightarrow> Some v))"
  using dist
proof (induction entries arbitrary: m)
  case Nil
  then show ?case by simp
next
  case (Cons e entries)
  obtain i d where e: "e = (i, d)" by (cases e)
  from Cons.prems have notin: "i \<notin> fst ` set entries" and dist': "distinct (map fst entries)"
    by (auto simp: e)
  have none: "map_of entries i = None"
    using notin by (simp add: map_of_eq_None_iff)
  show ?case
    using none by (auto simp: e step Cons.IH [OF dist'] split: option.splits)
qed

lemma tag_step:
  "(if has_property p \<and> property_value p \<noteq> None then m(i := property_value p) else m) =
   (case property_value p of None \<Rightarrow> m | Some v \<Rightarrow> m(i \<mapsto> v))"
  by (cases p) (simp_all add: has_property_def)

lemma tag_fold_lookup:
  fixes f :: "'d \<Rightarrow> 'b property"
  shows "distinct (map fst entries) \<Longrightarrow>
   foldl (\<lambda>all (scriptId, def).
        if has_property (f def) \<and> property_value (f def) \<noteq> None
        then all(scriptId := property_value (f def)) else all) m entries k =
   (case map_of entries k of None \<Rightarrow> m k
    | Some def \<Rightarrow> (case property_value (f def) of None \<Rightarrow> m k | Some v \<Rightarrow> Some v))"
  by (rule foldl_update_lookup [where g = "\<lambda>d. property_value (f d)"])
     (simp_all only: split tag_step)

lemma tag_fold_empty:
  "distinct (map fst entries) \<Longrightarrow>
   foldl (\<lambda>all (scriptId, def).
        if has_property (f def) \<and> property_value (f def) \<noteq> None
        then all(scriptId := property_value (f def)) else all) Map.empty entries k =
   (case map_of entries k of None \<Rightarrow> None | Some def \<Rightarrow> property_value (f def))"
  by (simp only: tag_fold_lookup) (simp split: option.splits)

lemma foldl_frame:
  "(\<And>m e. e \<in> set es \<Longrightarrow> F m e k = m k) \<Longrightarrow> foldl F m es k = m k"
  by (induction es arbitrary: m) simp_all

lemma variables_fold_skip:
  "\<forall>e \<in> set es. k \<notin> set (variable_keys (entity_variables e)) \<Longrightarrow>
   foldl (\<lambda>all entity. spread_optional all (entity_variables entity)) m es k = m k"
  by (rule foldl_frame) (simp add: spread_optional_skip)

lemma ownership_fold_skip:
  "\<forall>(i, e) \<in> set es. k \<notin> set (variable_keys (entity_variables e)) \<Longrightarrow>
   foldl (\<lambda>all (entityId, entity).
        all ++ foldl (\<lambda>entityVariables variableId. entityVariables(variableId \<mapsto> entityId))
                 Map.empty (variable_keys (entity_variables entity))) m es k = m k"
  by (rule foldl_frame) (auto simp: map_add_def keys_fold_lookup)

text \<open>
  C7: when several entities define the same variable id, the entity enumerated last among
  them wins on both maps: \<open>variables\<close> holds its definition and \<open>entityOwnership\<close> names it
  as the owner. The entity \<open>entity\<close> below defines \<open>variableId\<close>, and no entity enumerated
  after it does; the entities before it are arbitrary, so any of them may define
  \<open>variableId\<close> too.
\<close>

theorem later_entity_wins:
  assumes split: "template_entities template = before @ (entityId, entity) # after"
    and vars: "entity_variables entity = Some vars"
    and dist: "distinct (map fst vars)"
    and member: "(variableId, d) \<in> set vars"
    and last: "\<forall>(i, e) \<in> set after. variableId \<notin> set (variable_keys (entity_variables e))"
  shows "variables (authenticationTemplateToCompilationEnvironment template) variableId = Some d
       \<and> entityOwnership (authenticationTemplateToCompilationEnvironment template) variableId
           = Some entityId"
proof -
  have last': "\<forall>e \<in> set (map snd after). variableId \<notin> set (variable_keys (entity_variables e))"
    using last by auto
  have look: "map_of vars variableId = Some d"
    using dist member by simp
  have key: "variableId \<in> set (variable_keys (entity_variables entity))"
    using member vars by (force simp: variable_keys_def)
  have "variables (authenticationTemplateToCompilationEnvironment template) variableId =
          foldl (\<lambda>all entity. spread_optional all (entity_variables entity))
            (spread_optional
               (foldl (\<lambda>all entity. spread_optional all (entity_variables entity))
                  Map.empty (map snd before))
               (entity_variables entity))
            (map snd after) variableId"
    by (simp add: authenticationTemplateToCompilationEnvironment_def Let_def split)
  also have "\<dots> = Some d"
    by (simp only: variables_fold_skip [OF last'])
       (simp add: spread_optional_def vars spread_lookup [OF dist] look)
  finally have "variables (authenticationTemplateToCompilationEnvironment template) variableId = Some d" .
  moreover
  have "entityOwnership (authenticationTemplateToCompilationEnvironment template) variableId
          = Some entityId"
    unfolding authenticationTemplateToCompilationEnvironment_def Let_def split
    by (simp add: ownership_fold_skip [OF last] del: fun_upd_apply)
       (simp add: map_add_def keys_fold_lookup key)
  ultimately show ?thesis by simp
qed

theorem later_entity_wins_witness:
  "variables (authenticationTemplateToCompilationEnvironment
      \<lparr> template_entities =
          [(''owner'', \<lparr> entity_variables = Some [(''key'', 1 :: nat), (''delay'', 7)] \<rparr>),
           (''signer'', \<lparr> entity_variables = Some [(''key'', 2)] \<rparr>),
           (''observer'', \<lparr> entity_variables = None \<rparr>)],
        template_scripts = ([] :: (unit, unit) AuthenticationTemplateScript object) \<rparr>) ''key''
     = Some 2
   \<and> entityOwnership (authenticationTemplateToCompilationEnvironment
      \<lparr> template_entities =
          [(''owner'', \<lparr> entity_variables = Some [(''key'', 1 :: nat), (''delay'', 7)] \<rparr>),
           (''signer'', \<lparr> entity_variables = Some [(''key'', 2)] \<rparr>),
           (''observer'', \<lparr> entity_variables = None \<rparr>)],
        template_scripts = ([] :: (unit, unit) AuthenticationTemplateScript object) \<rparr>) ''key''
     = Some ''signer''"
  using later_entity_wins
    [where template = "\<lparr> template_entities =
          [(''owner'', \<lparr> entity_variables = Some [(''key'', 1 :: nat), (''delay'', 7)] \<rparr>),
           (''signer'', \<lparr> entity_variables = Some [(''key'', 2)] \<rparr>),
           (''observer'', \<lparr> entity_variables = None \<rparr>)],
        template_scripts = ([] :: (unit, unit) AuthenticationTemplateScript object) \<rparr>"
       and before = "[(''owner'', \<lparr> entity_variables = Some [(''key'', 1 :: nat), (''delay'', 7)] \<rparr>)]"
       and entityId = "''signer''"
       and entity = "\<lparr> entity_variables = Some [(''key'', 2)] \<rparr>"
       and after = "[(''observer'', \<lparr> entity_variables = None \<rparr>)]"
       and vars = "[(''key'', 2)]" and variableId = "''key''" and d = 2]
  by (simp add: variable_keys_def)

text \<open>
  C8: the maps \<open>unlockingScripts\<close>, \<open>lockingScriptTypes\<close> and
  \<open>unlockingScriptTimeLockTypes\<close> have an entry for a script id exactly when the
  template defines that script and its definition has the property (\<open>unlocks\<close>,
  \<open>lockingType\<close>, \<open>timeLockType\<close>) with a defined value, and the entry is that value. A
  script without the property, or with the property set to \<^verbatim>\<open>undefined\<close>, has no entry.
  The script ids of a template are the keys of an object, hence distinct.
\<close>

theorem script_tags_declared:
  assumes "distinct (map fst (template_scripts template))"
  shows "unlockingScripts (authenticationTemplateToCompilationEnvironment template) scriptId =
           (case map_of (template_scripts template) scriptId of
              None \<Rightarrow> None | Some def \<Rightarrow> property_value (unlocks def))
       \<and> lockingScriptTypes (authenticationTemplateToCompilationEnvironment template) scriptId =
           (case map_of (template_scripts template) scriptId of
              None \<Rightarrow> None | Some def \<Rightarrow> property_value (lockingType def))
       \<and> unlockingScriptTimeLockTypes (authenticationTemplateToCompilationEnvironment template) scriptId =
           (case map_of (template_scripts template) scriptId of
              None \<Rightarrow> None | Some def \<Rightarrow> property_value (timeLockType def))"
  unfolding authenticationTemplateToCompilationEnvironment_def Let_def
    CompilationEnvironment.select_convs tag_fold_empty [OF assms]
  by simp

theorem script_tags_declared_witness:
  "distinct (map fst
      [(''lock'', \<lparr> script = ''OP_1'', unlocks = Absent, timeLockType = Absent,
                    lockingType = Defined ''p2sh'' \<rparr>),
       (''spend'', \<lparr> script = ''<1>'', unlocks = Defined ''lock'', timeLockType = Undefined,
                     lockingType = Absent \<rparr>)])
   \<and> unlockingScripts (authenticationTemplateToCompilationEnvironment
        \<lparr> template_entities = ([] :: nat AuthenticationTemplateEntity object),
          template_scripts =
            [(''lock'', \<lparr> script = ''OP_1'', unlocks = Absent, timeLockType = Absent,
                          lockingType = Defined ''p2sh'' \<rparr>),
             (''spend'', \<lparr> script = ''<1>'', unlocks = Defined ''lock'',
                           timeLockType = (Undefined :: string property),
                           lockingType = Absent \<rparr>)] \<rparr>) ''spend'' = Some ''lock''
   \<and> lockingScriptTypes (authenticationTemplateToCompilationEnvironment
        \<lparr> template_entities = ([] :: nat AuthenticationTemplateEntity object),
          template_scripts =
            [(''lock'', \<lparr> script = ''OP_1'', unlocks = Absent, timeLockType = Absent,
                          lockingType = Defined ''p2sh'' \<rparr>),
             (''spend'', \<lparr> script = ''<1>'', unlocks = Defined ''lock'',
                           timeLockType = (Undefined :: string property),
                           lockingType = Absent \<rparr>)] \<rparr>) ''spend'' = None
   \<and> unlockingScriptTimeLockTypes (authenticationTemplateToCompilationEnvironment
        \<lparr> template_entities = ([] :: nat AuthenticationTemplateEntity object),
          template_scripts =
            [(''lock'', \<lparr> script = ''OP_1'', unlocks = Absent, timeLockType = Absent,
                          lockingType = Defined ''p2sh'' \<rparr>),
             (''spend'', \<lparr> script = ''<1>'', unlocks = Defined ''lock'',
                           timeLockType = (Undefined :: string property),
                           lockingType = Absent \<rparr>)] \<rparr>) ''spend'' = None"
  using script_tags_declared
    [where template = "\<lparr> template_entities = ([] :: nat AuthenticationTemplateEntity object),
          template_scripts =
            [(''lock'', \<lparr> script = ''OP_1'', unlocks = Absent, timeLockType = Absent,
                          lockingType = Defined ''p2sh'' \<rparr>),
             (''spend'', \<lparr> script = ''<1>'', unlocks = Defined ''lock'',
                           timeLockType = (Undefined :: string property),
                           lockingType = Absent \<rparr>)] \<rparr>"
       and scriptId = "''spend''"]
  by simp

section \<open>Properties of the compiler object\<close>

text \<open>
  C1, as amended: for every script id and data on which \<^verbatim>\<open>compileScript\<close> returns, a
  call of \<^verbatim>\<open>generateBytecode\<close> with \<open>debug\<close> false (omitted, or passed as \<^verbatim>\<open>false\<close>)
  returns \<^verbatim>\<open>{ success: true, bytecode }\<close> when the compilation succeeded, with its
  bytecode, and \<^verbatim>\<open>{ success: false, errorType, errors }\<close> when it failed, with the error
  type and the errors of the compilation: the compile errors that \<^verbatim>\<open>compileScript\<close>
  reports are inside the value returned. \<^verbatim>\<open>generateBytecode\<close> catches nothing: a value
  that \<^verbatim>\<open>compileScript\<close> throws is thrown by \<^verbatim>\<open>generateBytecode\<close> to its caller.
\<close>

theorem generateBytecode_discriminated:
  fixes compileScript :: "('d, 'env, 'x, 'k, 'e, 'a) compileScript"
  assumes "debug = None \<or> debug = Some False"
  shows "fst (generateBytecode compileScript compiler scriptId data debug) =
    (case fst (compileScript scriptId data (environment compiler)) of
       Inl thrown \<Rightarrow> Inl thrown
     | Inr (CompilationResultSuccess bytecode artifacts) \<Rightarrow> Inr (BytecodeSuccess bytecode)
     | Inr (CompilationResultError errorType errors artifacts) \<Rightarrow>
         Inr (BytecodeError errorType errors))"
  using assms
  by (auto simp: generateBytecode_def Let_def case_prod_beta
        split: sum.splits CompilationResult.splits)

theorem generateBytecode_discriminated_witness:
  "fst (generateBytecode
          (\<lambda>scriptId data env.
             (if scriptId = ''toString'' then Inl ''TypeError''
              else if scriptId = ''lock'' then Inr (CompilationResultSuccess [0x51] ())
              else Inr (CompilationResultError ''parse'' [''unknown script''] ()), env))
          (createCompiler ()) ''lock'' () None) = Inr (BytecodeSuccess [0x51])
   \<and> fst (generateBytecode
          (\<lambda>scriptId data env.
             (if scriptId = ''toString'' then Inl ''TypeError''
              else if scriptId = ''lock'' then Inr (CompilationResultSuccess [0x51] ())
              else Inr (CompilationResultError ''parse'' [''unknown script''] ()), env))
          (createCompiler ()) ''spend'' () (Some False))
       = Inr (BytecodeError ''parse'' [''unknown script''])
   \<and> fst (generateBytecode
          (\<lambda>scriptId data env.
             (if scriptId = ''toString'' then Inl ''TypeError''
              else if scriptId = ''lock'' then Inr (CompilationResultSuccess [0x51] ())
              else Inr (CompilationResultError ''parse'' [''unknown script''] ()), env))
          (createCompiler ()) ''toString'' () (Some False))
       = Inl ''TypeError''"
  using generateBytecode_discriminated
    [where debug = None and scriptId = "''lock''" and data = "()"
       and compiler = "createCompiler ()"
       and compileScript = "\<lambda>scriptId data env.
             (if scriptId = ''toString'' then Inl ''TypeError''
              else if scriptId = ''lock'' then Inr (CompilationResultSuccess [0x51] ())
              else Inr (CompilationResultError ''parse'' [''unknown script''] ()), env)"]
    generateBytecode_discriminated
    [where debug = "Some False" and scriptId = "''spend''" and data = "()"
       and compiler = "createCompiler ()"
       and compileScript = "\<lambda>scriptId data env.
             (if scriptId = ''toString'' then Inl ''TypeError''
              else if scriptId = ''lock'' then Inr (CompilationResultSuccess [0x51] ())
              else Inr (CompilationResultError ''parse'' [''unknown script''] ()), env)"]
    generateBytecode_discriminated
    [where debug = "Some False" and scriptId = "''toString''" and data = "()"
       and compiler = "createCompiler ()"
       and compileScript = "\<lambda>scriptId data env.
             (if scriptId = ''toString'' then Inl ''TypeError''
              else if scriptId = ''lock'' then Inr (CompilationResultSuccess [0x51] ())
              else Inr (CompilationResultError ''parse'' [''unknown script''] ()), env)"]
  by (simp add: createCompiler_def)

text \<open>
  The claim as stated, a discriminated value for every script id and nothing thrown,
  fails where \<^verbatim>\<open>compileScript\<close> throws: the call \<^verbatim>\<open>generateBytecode('toString', {})\<close>, on a
  \<^verbatim>\<open>compileScript\<close> that throws a \<^verbatim>\<open>TypeError\<close> at that script id, returns no value and
  throws the \<^verbatim>\<open>TypeError\<close>.
\<close>

theorem generateBytecode_throws_counterexample:
  "fst (generateBytecode
          (\<lambda>scriptId data env.
             (if scriptId = ''toString'' then Inl ''TypeError''
              else Inr (CompilationResultError ''parse'' [''unknown script''] ()), env))
          (createCompiler ()) ''toString'' () None)
     = Inl ''TypeError''"
  by (simp add: generateBytecode_def createCompiler_def)

text \<open>
  C10: every property that \<open>scriptsAndOverrides\<close> has overrides the default. The
  environment of the compiler has, at each property name, the value supplied in
  \<open>scriptsAndOverrides\<close> when there is one; \<open>createState\<close>, \<open>opcodes\<close> and \<open>operations\<close>
  keep their common defaults when \<open>scriptsAndOverrides\<close> does not have them.
\<close>

theorem overrides_replace_defaults:
  "environment (createCompilerCommonSynchronous createStateCommon opcodesCommon operationsCommon
      scriptsAndOverrides) property =
   (case scriptsAndOverrides property of
      Some supplied \<Rightarrow> Some supplied
    | None \<Rightarrow>
        if property = ''createState'' then Some createStateCommon
        else if property = ''opcodes'' then Some opcodesCommon
        else if property = ''operations'' then Some operationsCommon
        else None)"
  by (simp add: createCompilerCommonSynchronous_def createCompiler_def map_add_def
      split: option.splits)

section \<open>Script numbers\<close>

lemma le_value_simps [simp]:
  "le_value [] = 0" "le_value (d # ds) = d + 256 * le_value ds"
  by (simp_all add: le_value_def)

lemma le_value_append: "le_value (xs @ ys) = le_value xs + 256 ^ length xs * le_value ys"
  by (induction xs) (simp_all add: algebra_simps)

lemma le_digits_0 [simp]: "le_digits 0 = []"
  by (subst le_digits.simps) simp

lemma le_digits_Nil [simp]: "le_digits n = [] \<longleftrightarrow> n = 0"
  by (subst le_digits.simps) simp

lemma le_digits_value: "le_value (le_digits n) = n"
proof (induction n rule: le_digits.induct)
  case (1 n)
  show ?case
  proof (cases "n = 0")
    case True
    then show ?thesis by simp
  next
    case False
    with "1" have "le_value (le_digits (n div 256)) = n div 256" by simp
    with False show ?thesis
      by (subst le_digits.simps) simp
  qed
qed

lemma le_digits_bound: "d \<in> set (le_digits n) \<Longrightarrow> d < 256"
proof (induction n rule: le_digits.induct)
  case (1 n)
  show ?case
  proof (cases "n = 0")
    case True
    with "1.prems" show ?thesis by simp
  next
    case False
    from "1.prems" have "d = n mod 256 \<or> d \<in> set (le_digits (n div 256))"
      by (subst (asm) le_digits.simps) (simp add: False)
    with "1.IH" [OF False] show ?thesis by auto
  qed
qed

lemma decode_sign_digits:
  assumes "ds \<noteq> []"
  shows "decode_digits (sign_digits negative ds) =
           (if negative then - int (le_value ds) else int (le_value ds))"
proof (cases "128 \<le> last ds")
  case True
  then show ?thesis
    using assms by (simp add: sign_digits_def decode_digits_def le_value_append)
next
  case False
  have "butlast ds @ [last ds] = ds"
    using assms by simp
  with False show ?thesis
    using assms by (simp add: sign_digits_def decode_digits_def)
qed

lemma sign_digits_bound:
  assumes "\<forall>d \<in> set ds. d < 256"
  shows "\<forall>d \<in> set (sign_digits negative ds). d < 256"
proof (cases "ds = []")
  case True
  then show ?thesis by (simp add: sign_digits_def)
next
  case False
  then have "set (butlast ds) \<subseteq> set ds"
    by (metis append_butlast_last_id set_append Un_upper1)
  with assms have "\<forall>d \<in> set (butlast ds). d < 256" by auto
  with assms False show ?thesis
    by (auto simp: sign_digits_def)
qed

lemma map_unat_of_nat:
  "\<forall>d \<in> set ds. d < 256 \<Longrightarrow> map unat (map of_nat ds :: byte list) = ds"
  by (induction ds) (simp_all add: unat_of_nat)

lemma decode_encode_script_number: "decode_script_number (encode_script_number v) = v"
proof (cases "v = 0")
  case True
  then show ?thesis
    by (simp add: decode_script_number_def encode_script_number_def sign_digits_def decode_digits_def)
next
  case False
  let ?ds = "le_digits (nat \<bar>v\<bar>)"
  from False have ne: "?ds \<noteq> []" by simp
  have "\<forall>d \<in> set (sign_digits (v < 0) ?ds). d < 256"
    by (rule sign_digits_bound) (simp add: le_digits_bound)
  then have "decode_script_number (encode_script_number v) = decode_digits (sign_digits (v < 0) ?ds)"
    by (simp only: decode_script_number_def encode_script_number_def map_unat_of_nat)
  also have "\<dots> = (if v < 0 then - int (le_value ?ds) else int (le_value ?ds))"
    by (rule decode_sign_digits [OF ne])
  also have "\<dots> = v"
    by (simp add: le_digits_value)
  finally show ?thesis .
qed

lemma encode_script_number_inj:
  "encode_script_number v = encode_script_number w \<Longrightarrow> v = w"
  by (metis decode_encode_script_number)

lemma encode_script_number_Nil [simp]: "encode_script_number v = [] \<longleftrightarrow> v = 0"
  by (auto simp: encode_script_number_def sign_digits_def)

section \<open>Lexing a decimal literal\<close>

lemma gt_not_digit: "\<not> is_digit CHR ''>''"
  by (simp add: is_digit_def)

lemma of_char_digit_char: "d < 10 \<Longrightarrow> (of_char (digit_char d) :: nat) = 48 + d"
proof -
  assume "d < 10"
  then have "d \<in> {0, 1, 2, 3, 4, 5, 6, 7, 8, 9}" by auto
  then show ?thesis by (auto simp: digit_char_def)
qed

lemma is_digit_digit_char: "d < 10 \<Longrightarrow> is_digit (digit_char d)"
  by (simp add: is_digit_def of_char_digit_char)

lemma decimal_value_snoc:
  "decimal_value (ds @ [c]) = 10 * decimal_value ds + (of_char c - 48)"
  by (simp add: decimal_value_def)

lemma decimal_value_digits: "decimal_value (decimal_digits n) = n"
proof (induction n rule: decimal_digits.induct)
  case (1 n)
  show ?case
  proof (cases "n < 10")
    case True
    then show ?thesis
      by (subst decimal_digits.simps) (simp add: decimal_value_def of_char_digit_char)
  next
    case False
    with "1" have "decimal_value (decimal_digits (n div 10)) = n div 10" by simp
    with False show ?thesis
      by (subst decimal_digits.simps) (simp add: decimal_value_snoc of_char_digit_char)
  qed
qed

lemma decimal_digits_all: "c \<in> set (decimal_digits n) \<Longrightarrow> is_digit c"
proof (induction n rule: decimal_digits.induct)
  case (1 n)
  show ?case
  proof (cases "n < 10")
    case True
    with "1.prems" show ?thesis
      by (subst (asm) decimal_digits.simps) (simp add: is_digit_digit_char)
  next
    case False
    from "1.prems" have "c \<in> set (decimal_digits (n div 10)) \<or> c = digit_char (n mod 10)"
      by (subst (asm) decimal_digits.simps) (auto simp: False)
    with "1.IH" [OF False] show ?thesis
      by (auto simp: is_digit_digit_char)
  qed
qed

lemma decimal_digits_not_Nil: "decimal_digits n \<noteq> []"
  by (subst decimal_digits.simps) simp

lemma is_digit_plain:
  assumes "is_digit c"
  shows "\<not> is_whitespace c" "c \<noteq> CHR ''/''" "c \<noteq> CHR ''<''" "c \<noteq> CHR ''>''" "c \<noteq> CHR ''$''"
    "c \<noteq> CHR '')''" "c \<noteq> CHR 0x27" "c \<noteq> CHR 0x22" "c \<noteq> CHR ''x''" "c \<noteq> CHR ''-''"
  using assms by (auto simp: is_digit_def is_whitespace_def)

lemma lex1_digits:
  assumes ne: "ds \<noteq> []" and all: "\<forall>c \<in> set ds. is_digit c" and stop: "\<not> is_digit x" and nx: "x \<noteq> CHR ''x''"
  shows "lex1 (ds @ x # r) = StepToken (TokBigInt (int (decimal_value ds))) (x # r)"
proof -
  from ne obtain c cs where ds: "ds = c # cs" by (cases ds) auto
  with all have c: "is_digit c" and cs: "\<forall>c \<in> set cs. is_digit c" by simp_all
  have nohex: "take 1 (cs @ x # r) \<noteq> ''x''"
  proof (cases cs)
    case Nil
    then show ?thesis using nx by simp
  next
    case (Cons d cs')
    with cs have "is_digit d" by simp
    then show ?thesis using Cons by (simp add: is_digit_plain)
  qed
  show ?thesis
    using c cs stop nohex by (simp add: ds lex1_def longest_def is_digit_plain)
qed

lemma lex1_minus_digits:
  assumes ne: "ds \<noteq> []" and all: "\<forall>c \<in> set ds. is_digit c" and stop: "\<not> is_digit x"
  shows "lex1 (CHR ''-'' # ds @ x # r) = StepToken (TokBigInt (- int (decimal_value ds))) (x # r)"
proof -
  from ne obtain c cs where ds: "ds = c # cs" by (cases ds) auto
  with all have c: "is_digit c" and cs: "\<forall>c \<in> set cs. is_digit c" by simp_all
  have "starts_with_digit (ds @ x # r)"
    using c by (simp add: ds starts_with_digit_def)
  moreover have "takeWhile is_digit (ds @ x # r) = ds \<and> dropWhile is_digit (ds @ x # r) = x # r"
    using all stop by simp
  ultimately show ?thesis
    by (simp add: lex1_def longest_def is_whitespace_def is_digit_def)
qed

lemma lex1_decimal:
  "lex1 (decimal v @ ''>'') = StepToken (TokBigInt v) ''>''"
proof (cases "v < 0")
  case True
  have "lex1 (CHR ''-'' # decimal_digits (nat (- v)) @ CHR ''>'' # []) =
          StepToken (TokBigInt (- int (decimal_value (decimal_digits (nat (- v)))))) ''>''"
    by (rule lex1_minus_digits) (simp_all add: decimal_digits_not_Nil decimal_digits_all gt_not_digit)
  with True show ?thesis
    by (simp add: decimal_def decimal_value_digits)
next
  case False
  have "lex1 (decimal_digits (nat v) @ CHR ''>'' # []) =
          StepToken (TokBigInt (int (decimal_value (decimal_digits (nat v))))) ''>''"
    by (rule lex1_digits) (simp_all add: decimal_digits_not_Nil decimal_digits_all gt_not_digit)
  with False show ?thesis
    by (simp add: decimal_def decimal_value_digits)
qed

lemma tokenize_push_decimal:
  "tokenize (''<'' @ decimal v @ ''>'') = Inr [TokPushOpen, TokBigInt v, TokPushClose]"
proof -
  have 1: "lex1 (CHR ''<'' # decimal v @ ''>'') = StepToken TokPushOpen (decimal v @ ''>'')"
    by (simp add: lex1_def is_whitespace_def)
  have 2: "lex1 ''>'' = StepToken TokPushClose []"
    by (simp add: lex1_def is_whitespace_def)
  have 3: "lex1 [] = StepEnd"
    by (simp add: lex1_def)
  have "tokenize [] = Inr []"
    by (subst tokenize.simps) (simp add: 3)
  then have "tokenize ''>'' = Inr [TokPushClose]"
    by (subst tokenize.simps) (simp add: 2)
  then have "tokenize (decimal v @ ''>'') = Inr [TokBigInt v, TokPushClose]"
    by (subst tokenize.simps) (simp add: lex1_decimal)
  then have "tokenize (CHR ''<'' # decimal v @ ''>'') = Inr [TokPushOpen, TokBigInt v, TokPushClose]"
    by (subst tokenize.simps) (simp add: 1)
  then show ?thesis by simp
qed

lemma compile_push_decimal:
  "compile env (''<'' @ decimal v @ ''>'') = encode_push (encode_script_number v)"
  using tokenize_push_decimal [of v]
  by (simp add: compile_def remove_comments_def is_comment_def parse_def split: sum.splits)

section \<open>Pushes\<close>

lemma length_le_digits: "length (le_digits n) \<le> k \<longleftrightarrow> n < 256 ^ k"
proof (induction k arbitrary: n)
  case 0
  then show ?case by simp
next
  case (Suc k)
  show ?case
  proof (cases "n = 0")
    case True
    then show ?thesis by simp
  next
    case False
    have "n div 256 < 256 ^ k \<longleftrightarrow> n < 256 ^ k * 256"
      by (rule div_less_iff_less_mult) simp
    with False Suc [of "n div 256"] show ?thesis
      by (subst le_digits.simps) (simp add: mult.commute)
  qed
qed

lemma last_le_digits:
  "0 < n \<Longrightarrow> last (le_digits n) = n div 256 ^ (length (le_digits n) - 1)"
proof (induction n rule: le_digits.induct)
  case (1 n)
  then have n: "n \<noteq> 0" by simp
  show ?case
  proof (cases "n div 256 = 0")
    case True
    then have "n < 256" by (simp add: div_eq_0_iff)
    with n True show ?thesis
      by (subst (1 2) le_digits.simps) simp
  next
    case False
    with "1.IH" [OF n]
    have IH: "last (le_digits (n div 256)) = n div 256 div 256 ^ (length (le_digits (n div 256)) - 1)"
      by simp
    from False have "length (le_digits (n div 256)) \<noteq> 0" by simp
    then obtain j where j: "length (le_digits (n div 256)) = Suc j"
      by (cases "length (le_digits (n div 256))") auto
    show ?thesis
      using n False IH
      by (subst (1 2) le_digits.simps) (simp add: j div_mult2_eq)
  qed
qed

lemma length_sign_digits:
  "length (sign_digits negative ds) = (if ds \<noteq> [] \<and> 128 \<le> last ds then Suc (length ds) else length ds)"
  by (simp add: sign_digits_def)

lemma length_encode_script_number:
  "length (encode_script_number v) \<le> Suc j \<longleftrightarrow> \<bar>v\<bar> < 128 * 256 ^ j"
proof (cases "v = 0")
  case True
  then show ?thesis by (simp add: encode_script_number_def sign_digits_def)
next
  case False
  define n where "n = nat \<bar>v\<bar>"
  define L where "L = length (le_digits n) - 1"
  from False have n: "0 < n" by (simp add: n_def)
  then have "length (le_digits n) \<noteq> 0" by simp
  then have len: "length (le_digits n) = Suc L" by (simp add: L_def)
  have top: "last (le_digits n) = n div 256 ^ L"
    using last_le_digits [OF n] by (simp add: L_def)
  have lower: "256 ^ L \<le> n"
    using length_le_digits [of n L] len by simp
  have upper: "n < 256 * 256 ^ L"
    using length_le_digits [of n "Suc L"] len by simp
  have big: "128 \<le> last (le_digits n) \<longleftrightarrow> 128 * 256 ^ L \<le> n"
    by (simp add: top less_eq_div_iff_mult_less_eq)
  have v: "\<bar>v\<bar> < 128 * 256 ^ j \<longleftrightarrow> n < 128 * 256 ^ j"
    by (simp add: n_def nat_less_iff)
  have enc: "length (encode_script_number v) =
      (if 128 * 256 ^ L \<le> n then Suc (Suc L) else Suc L)"
    using n big by (simp add: encode_script_number_def length_sign_digits len flip: n_def)
  show ?thesis
  proof (cases "128 * 256 ^ L \<le> n")
    case True
    show ?thesis
    proof
      assume "length (encode_script_number v) \<le> Suc j"
      with True enc have "Suc L \<le> j" by simp
      then have "(256::nat) * 256 ^ L \<le> 256 ^ j"
        using power_increasing [of "Suc L" j "256::nat"] by simp
      with upper have "n < 256 ^ j" by simp
      then have "n < 128 * 256 ^ j" by simp
      with v show "\<bar>v\<bar> < 128 * 256 ^ j" by simp
    next
      assume "\<bar>v\<bar> < 128 * 256 ^ j"
      with v have "n < 128 * 256 ^ j" by simp
      with True have "128 * 256 ^ L < 128 * (256::nat) ^ j" by (rule le_less_trans)
      then have "(256::nat) ^ L < 256 ^ j" by simp
      then have "L < j" by simp
      with True enc show "length (encode_script_number v) \<le> Suc j" by simp
    qed
  next
    case False
    show ?thesis
    proof
      assume "length (encode_script_number v) \<le> Suc j"
      with False enc have "L \<le> j" by simp
      then have "128 * (256::nat) ^ L \<le> 128 * 256 ^ j"
        by simp
      moreover from False have "n < 128 * 256 ^ L" by simp
      ultimately have "n < 128 * 256 ^ j" by (rule order.strict_trans2 [rotated])
      with v show "\<bar>v\<bar> < 128 * 256 ^ j" by simp
    next
      assume "\<bar>v\<bar> < 128 * 256 ^ j"
      with v lower have "(256::nat) ^ L < 128 * 256 ^ j" by simp
      also have "\<dots> < 256 ^ Suc j" by simp
      finally have "(256::nat) ^ L < 256 ^ Suc j" .
      then have "L < Suc j" by (simp only: power_strict_increasing_iff)
      with False enc show "length (encode_script_number v) \<le> Suc j" by simp
    qed
  qed
qed

lemma le_value_bound: "\<forall>d \<in> set ds. d < 256 \<Longrightarrow> le_value ds < 256 ^ length ds"
proof (induction ds)
  case Nil
  then show ?case by simp
next
  case (Cons d ds)
  then have "d \<le> 255" and "le_value ds + 1 \<le> 256 ^ length ds"
    by simp_all
  then have "d + 256 * (le_value ds + 1) \<le> 255 + 256 * 256 ^ length ds"
    by (intro add_mono mult_left_mono) simp_all
  then show ?case by simp
qed

lemma decode_digits_bound:
  assumes digits: "\<forall>d \<in> set ds. d < 256" and ne: "ds \<noteq> []"
  shows "\<bar>decode_digits ds\<bar> < 128 * 256 ^ (length ds - 1)"
proof -
  define low where "low = le_value (butlast ds)"
  define n where "n = length ds - 1"
  have split: "ds = butlast ds @ [last ds]"
    using ne by simp
  have len: "length (butlast ds) = n"
    by (simp add: n_def)
  have "\<forall>d \<in> set (butlast ds). d < 256"
    using digits by (auto dest: in_set_butlastD)
  then have low: "low < 256 ^ n"
    unfolding low_def using le_value_bound [of "butlast ds"] by (simp add: n_def)
  have top: "last ds < 256"
    using digits ne by simp
  have at_top: "le_value (butlast ds @ [t]) = low + 256 ^ n * t" for t
    by (simp add: le_value_append low_def n_def)
  have bound: "low + 256 ^ n * t < 128 * 256 ^ n" if "t \<le> 127" for t
  proof -
    from that have "256 ^ n * t \<le> (256::nat) ^ n * 127"
      by (rule mult_left_mono) simp
    with low have "low + 256 ^ n * t < 256 ^ n + 256 ^ n * 127"
      by (rule add_less_le_mono)
    also have "\<dots> = 128 * 256 ^ n" by simp
    finally show ?thesis .
  qed
  have to_int: "int m < 128 * 256 ^ n" if "m < 128 * 256 ^ n" for m
  proof -
    from that have "int m < int (128 * 256 ^ n)"
      by (simp only: of_nat_less_iff)
    then show ?thesis by simp
  qed
  show ?thesis
  proof (cases "128 \<le> last ds")
    case True
    with top have "last ds - 128 \<le> 127" by simp
    from bound [OF this] have "le_value (butlast ds @ [last ds - 128]) < 128 * 256 ^ n"
      by (simp only: at_top)
    then have "int (le_value (butlast ds @ [last ds - 128])) < 128 * 256 ^ n"
      by (rule to_int)
    moreover have "decode_digits ds = - int (le_value (butlast ds @ [last ds - 128]))"
      using True ne by (simp only: decode_digits_def if_False if_True)
    ultimately show ?thesis
      unfolding n_def by simp
  next
    case False
    then have "last ds \<le> 127" by simp
    from bound [OF this] have "le_value (butlast ds @ [last ds]) < 128 * 256 ^ n"
      by (simp only: at_top)
    then have "le_value ds < 128 * 256 ^ n"
      using split by simp
    then have "int (le_value ds) < 128 * 256 ^ n"
      by (rule to_int)
    moreover have "decode_digits ds = int (le_value ds)"
      using False ne by (simp only: decode_digits_def if_False)
    ultimately show ?thesis
      unfolding n_def by simp
  qed
qed

lemma encode_script_number_minimal:
  assumes "decode_script_number bytes = v"
  shows "length (encode_script_number v) \<le> length bytes"
proof (cases bytes)
  case Nil
  with assms have "v = 0"
    by (simp add: decode_script_number_def decode_digits_def)
  then show ?thesis by (simp add: encode_script_number_def sign_digits_def)
next
  case (Cons b bs)
  have "\<forall>d \<in> set (map unat bytes). d < 256"
    using unsigned_less [where 'b = 8 and 'a = nat] by auto
  moreover have "map unat bytes \<noteq> []"
    by (simp add: Cons)
  ultimately have "\<bar>decode_digits (map unat bytes)\<bar> < 128 * 256 ^ (length (map unat bytes) - 1)"
    by (rule decode_digits_bound)
  then have "\<bar>v\<bar> < 128 * 256 ^ length bs"
    using assms by (simp add: decode_script_number_def Cons)
  then have "length (encode_script_number v) \<le> Suc (length bs)"
    by (simp only: length_encode_script_number)
  then show ?thesis by (simp add: Cons)
qed

lemma find_injective:
  "v \<in> set xs \<Longrightarrow> (\<And>w. f w = f v \<Longrightarrow> w = v) \<Longrightarrow> List.find (\<lambda>w. f w = f v) xs = Some v"
  by (induction xs) auto

lemma set_small_integers: "set small_integers = {v. v = -1 \<or> 1 \<le> v \<and> v \<le> 16}"
  by (auto simp: small_integers_def)

lemma encode_push_small:
  assumes "-1 \<le> v" and "v \<le> 16"
  shows "encode_push (encode_script_number v) = Inr [small_integer_opcode v]"
proof (cases "v = 0")
  case True
  then show ?thesis by (simp add: encode_push_def small_integer_opcode_def)
next
  case False
  with assms have "v \<in> set small_integers"
    by (auto simp: set_small_integers)
  then have "List.find (\<lambda>w. encode_script_number w = encode_script_number v) small_integers = Some v"
    by (rule find_injective) (rule encode_script_number_inj)
  with False show ?thesis by (simp add: encode_push_def)
qed

lemma encode_push_other:
  assumes "\<not> (-1 \<le> v \<and> v \<le> 16)" and "length (encode_script_number v) \<le> 75"
  shows "encode_push (encode_script_number v) =
           Inr (of_nat (length (encode_script_number v)) # encode_script_number v)"
proof -
  from assms(1) have "v \<noteq> 0" by auto
  moreover have "List.find (\<lambda>w. encode_script_number w = encode_script_number v) small_integers = None"
    using assms(1) by (auto simp: find_None_iff set_small_integers dest!: encode_script_number_inj)
  ultimately show ?thesis
    using assms(2) by (simp add: encode_push_def)
qed

lemma encode_push_wide:
  assumes "2 ^ 599 \<le> \<bar>v\<bar>" and "\<bar>v\<bar> < 2 ^ 2039"
  shows "encode_push (encode_script_number v) =
           Inr (0x4c # of_nat (length (encode_script_number v)) # encode_script_number v)"
proof -
  have "\<not> length (encode_script_number v) \<le> Suc 74"
    using assms(1) by (simp only: length_encode_script_number) simp
  then have long: "75 < length (encode_script_number v)" by simp
  have "length (encode_script_number v) \<le> Suc 254"
    using assms(2) by (simp only: length_encode_script_number) simp
  then have short: "length (encode_script_number v) < 256" by simp
  from long have ne: "encode_script_number v \<noteq> []" by (cases "encode_script_number v") simp_all
  have "\<And>w. w \<in> set small_integers \<Longrightarrow> length (encode_script_number w) \<le> Suc 0"
    by (simp only: length_encode_script_number) (auto simp: set_small_integers)
  with long have "List.find (\<lambda>w. encode_script_number w = encode_script_number v) small_integers = None"
    by (fastforce simp: find_None_iff)
  with long short ne show ?thesis
    by (simp add: encode_push_def length_bytes_def)
qed

lemma encode_push_length:
  assumes "75 < length content" and "encode_push content = Inr bytes"
  shows "length bytes \<noteq> Suc (length content)"
  using assms
  by (auto simp: encode_push_def length_bytes_def split: if_splits option.splits)

lemma encode_push_long:
  assumes "75 < length content"
  shows "encode_push content \<noteq> Inr (N # content)"
proof
  assume "encode_push content = Inr (N # content)"
  from encode_push_length [OF assms this] show False by simp
qed

text \<open>
  C3, as amended: for every integer \<open>v\<close> with \<open>-1 \<le> v \<le> 16\<close>, the script \<^verbatim>\<open><v>\<close>
  compiles to the single small-integer opcode byte of \<open>v\<close>; for every integer \<open>v\<close> outside
  that range with \<open>\<bar>v\<bar> < 2 ^ 599\<close>, it compiles to a length byte followed by the minimal
  signed script-number encoding of \<open>v\<close>, which then has at most 75 bytes, denotes \<open>v\<close> and
  is the shortest byte sequence that does. For every integer \<open>v\<close> with \<open>2 ^ 599 \<le> \<bar>v\<bar>\<close>
  the encoding has 76 bytes or more, and \<^verbatim>\<open><v>\<close> does not compile to one byte followed by
  the encoding.
\<close>

theorem integer_push:
  "(- 1 \<le> v \<and> v \<le> 16 \<longrightarrow>
      compile env (''<'' @ decimal v @ ''>'') = Inr [small_integer_opcode v])
 \<and> (\<not> (- 1 \<le> v \<and> v \<le> 16) \<and> \<bar>v\<bar> < 2 ^ 599 \<longrightarrow>
      compile env (''<'' @ decimal v @ ''>'') =
        Inr (of_nat (length (encode_script_number v)) # encode_script_number v)
    \<and> length (encode_script_number v) \<le> 75
    \<and> decode_script_number (encode_script_number v) = v
    \<and> (\<forall>bytes. decode_script_number bytes = v \<longrightarrow>
          length (encode_script_number v) \<le> length bytes))
 \<and> (2 ^ 599 \<le> \<bar>v\<bar> \<longrightarrow>
      76 \<le> length (encode_script_number v)
    \<and> (\<forall>N. compile env (''<'' @ decimal v @ ''>'') \<noteq> Inr (N # encode_script_number v)))"
proof -
  have small: "compile env (''<'' @ decimal v @ ''>'') = Inr [small_integer_opcode v]"
    if "- 1 \<le> v \<and> v \<le> 16"
    using that unfolding compile_push_decimal by (simp add: encode_push_small)
  have narrow: "compile env (''<'' @ decimal v @ ''>'') =
        Inr (of_nat (length (encode_script_number v)) # encode_script_number v)
    \<and> length (encode_script_number v) \<le> 75
    \<and> decode_script_number (encode_script_number v) = v
    \<and> (\<forall>bytes. decode_script_number bytes = v \<longrightarrow>
          length (encode_script_number v) \<le> length bytes)"
    if outside: "\<not> (- 1 \<le> v \<and> v \<le> 16) \<and> \<bar>v\<bar> < 2 ^ 599"
  proof (intro conjI)
    from outside have "\<bar>v\<bar> < 128 * 256 ^ 74" by simp
    then have "length (encode_script_number v) \<le> Suc 74"
      by (simp only: length_encode_script_number)
    then show short: "length (encode_script_number v) \<le> 75" by simp
    with outside show "compile env (''<'' @ decimal v @ ''>'') =
        Inr (of_nat (length (encode_script_number v)) # encode_script_number v)"
      unfolding compile_push_decimal by (simp add: encode_push_other)
    show "decode_script_number (encode_script_number v) = v"
      by (rule decode_encode_script_number)
    show "\<forall>bytes. decode_script_number bytes = v \<longrightarrow>
            length (encode_script_number v) \<le> length bytes"
      by (simp add: encode_script_number_minimal)
  qed
  have wide: "76 \<le> length (encode_script_number v)
    \<and> (\<forall>N. compile env (''<'' @ decimal v @ ''>'') \<noteq> Inr (N # encode_script_number v))"
    if beyond: "2 ^ 599 \<le> \<bar>v\<bar>"
  proof (intro conjI allI)
    have "\<not> length (encode_script_number v) \<le> Suc 74"
      using beyond by (simp only: length_encode_script_number) simp
    then show "76 \<le> length (encode_script_number v)" by simp
    then have "75 < length (encode_script_number v)" by simp
    then show "compile env (''<'' @ decimal v @ ''>'') \<noteq> Inr (N # encode_script_number v)" for N
      unfolding compile_push_decimal by (rule encode_push_long)
  qed
  from small narrow wide show ?thesis by blast
qed

lemma decimal_5: "decimal 5 = ''5''"
  by (simp add: decimal_def decimal_digits.simps digit_char_def)

lemma decimal_1000: "decimal 1000 = ''1000''"
  by (simp add: decimal_def decimal_digits.simps digit_char_def)

lemma encode_1000: "encode_script_number 1000 = [0xe8, 0x03]"
  by (simp add: encode_script_number_def sign_digits_def le_digits.simps)

theorem integer_push_witness:
  "compile no_resolution ''<5>'' = Inr [0x55]
 \<and> compile no_resolution ''<1000>'' = Inr [0x02, 0xe8, 0x03]
 \<and> compile no_resolution (''<'' @ decimal (2 ^ 599) @ ''>'') \<noteq>
     Inr (0x4c # encode_script_number (2 ^ 599))"
proof -
  have "(2 :: int) ^ 599 \<le> \<bar>2 ^ 599\<bar>" by simp
  with integer_push [of "2 ^ 599" no_resolution]
  have "compile no_resolution (''<'' @ decimal (2 ^ 599) @ ''>'') \<noteq>
     Inr (0x4c # encode_script_number (2 ^ 599))"
    by blast
  moreover from integer_push [of 5 no_resolution] integer_push [of 1000 no_resolution]
  have "compile no_resolution ''<5>'' = Inr [0x55]
      \<and> compile no_resolution ''<1000>'' = Inr [0x02, 0xe8, 0x03]"
    by (simp add: decimal_5 decimal_1000 encode_1000 small_integer_opcode_def)
  ultimately show ?thesis by simp
qed

text \<open>
  The claim as stated, for every integer outside the range, fails at \<open>v = 2 ^ 599\<close>: the
  encoding has 76 bytes, and the bytecode is \<^verbatim>\<open>4c 4c\<close> and the encoding, two bytes
  before the encoding and not one length byte.
\<close>

theorem integer_push_wide_counterexample:
  "length (encode_script_number (2 ^ 599)) = 76
 \<and> compile no_resolution (''<'' @ decimal (2 ^ 599) @ ''>'') =
     Inr (0x4c # 0x4c # encode_script_number (2 ^ 599))"
proof -
  have "\<not> length (encode_script_number (2 ^ 599)) \<le> Suc 74"
    by (simp only: length_encode_script_number) simp
  moreover have "length (encode_script_number (2 ^ 599)) \<le> Suc 75"
    by (simp only: length_encode_script_number) simp
  ultimately have len: "length (encode_script_number (2 ^ 599)) = 76" by simp
  have "encode_push (encode_script_number (2 ^ 599)) =
      Inr (0x4c # of_nat (length (encode_script_number (2 ^ 599))) # encode_script_number (2 ^ 599))"
    by (rule encode_push_wide) simp_all
  also have "of_nat (length (encode_script_number (2 ^ 599))) = (0x4c :: byte)"
    unfolding len by simp
  finally have "compile no_resolution (''<'' @ decimal (2 ^ 599) @ ''>'') =
     Inr (0x4c # 0x4c # encode_script_number (2 ^ 599))"
    unfolding compile_push_decimal .
  with len show ?thesis by (rule conjI)
qed

text \<open>
  C4: the script \<^verbatim>\<open><0x00>\<close> compiles to exactly the two bytes \<^verbatim>\<open>01 00\<close>: the push of a
  single zero byte has a length prefix. It is neither the push of the empty byte array
  (\<^verbatim>\<open><>\<close>, one byte \<^verbatim>\<open>00\<close>) nor the push of the integer zero (\<^verbatim>\<open><0>\<close>, the same byte).
\<close>

theorem zero_byte_push:
  "compile env ''<0x00>'' = Inr [0x01, 0x00]
 \<and> compile env ''<>'' = Inr [0x00]
 \<and> compile env ''<0>'' = Inr [0x00]"
  by code_simp

text \<open>
  C5: the script \<^verbatim>\<open><<<<1>>>>\<close> compiles to exactly \<^verbatim>\<open>03 02 01 51\<close>. The innermost push
  of 1 is the small-integer opcode \<^verbatim>\<open>51\<close>, and every enclosing push is the minimal push
  of the bytes of its child: a length byte before them. At every level the push of a
  node is the minimal push encoding of that node's own bytecode.
\<close>

theorem nested_pushes:
  "compile env ''<<<<1>>>>'' = Inr [0x03, 0x02, 0x01, 0x51]
 \<and> compile env ''<1>'' = Inr [0x51]
 \<and> compile env ''<<1>>'' = Inr [0x01, 0x51]
 \<and> compile env ''<<<1>>>'' = Inr [0x02, 0x01, 0x51]
 \<and> generate env (Push [node]) =
       (case generate env node of Inl e \<Rightarrow> Inl e | Inr content \<Rightarrow> encode_push content)"
proof -
  have "generate env (Push [node]) =
       (case generate env node of Inl e \<Rightarrow> Inl e | Inr content \<Rightarrow> encode_push content)"
    by (simp split: sum.splits)
  moreover have "compile env ''<<<<1>>>>'' = Inr [0x03, 0x02, 0x01, 0x51]" by code_simp
  moreover have "compile env ''<1>'' = Inr [0x51]" by code_simp
  moreover have "compile env ''<<1>>'' = Inr [0x01, 0x51]" by code_simp
  moreover have "compile env ''<<<1>>>'' = Inr [0x02, 0x01, 0x51]" by code_simp
  ultimately show ?thesis by simp
qed

section \<open>Comments\<close>

subsection \<open>Sub-lexers in a changed context\<close>

lemma dropWhile_rest:
  assumes "dropWhile P (x @ r) = r"
  shows "(\<forall>y \<in> set x. P y) \<and> (r = [] \<or> \<not> P (hd r))"
proof -
  have "takeWhile P (x @ r) @ dropWhile P (x @ r) = x @ r"
    by simp
  then have tw: "takeWhile P (x @ r) = x"
    using assms by simp
  then have all: "\<forall>y \<in> set x. P y"
    by (metis set_takeWhileD)
  then have "dropWhile P r = r"
    using assms by simp
  then have "r = [] \<or> \<not> P (hd r)"
    by (metis hd_dropWhile)
  with all show ?thesis by simp
qed

lemma longest_eq:
  "longest P build cs = StepToken t r \<longleftrightarrow> t = build (takeWhile P cs) \<and> dropWhile P cs = r"
  by (auto simp: longest_def)

lemma longest_stop:
  assumes "longest P build (y @ r) = StepToken t r"
  shows "r = [] \<or> \<not> P (hd r)"
proof -
  from assms [unfolded longest_eq] have "dropWhile P (y @ r) = r" ..
  from dropWhile_rest [OF this] show ?thesis ..
qed

lemma longest_context:
  assumes step: "longest P build (y @ r) = StepToken t r"
    and stop: "r' = [] \<or> \<not> P (hd r')"
  shows "longest P build (y @ r') = StepToken t r'"
proof -
  from step [unfolded longest_eq]
  have t: "t = build (takeWhile P (y @ r))" and dw: "dropWhile P (y @ r) = r"
    by blast+
  from dropWhile_rest [OF dw]
  have all: "\<forall>c \<in> set y. P c" and stop_r: "r = [] \<or> \<not> P (hd r)"
    by simp_all
  have "takeWhile P r = []"
    using stop_r by (cases r) auto
  moreover have "takeWhile P r' = []"
    using stop by (cases r') auto
  moreover have "dropWhile P r' = r'"
    using stop by (cases r') auto
  ultimately show ?thesis
    using all by (simp add: longest_def t)
qed

lemma block_comment_end_context:
  "block_comment_end (y @ r) = Some (body, r) \<Longrightarrow> block_comment_end (y @ r') = Some (body, r')"
proof (induction y arbitrary: body rule: induct_list012)
  case 1
  then show ?case
    using block_comment_end_length [of r body r] by simp
next
  case (2 a)
  show ?case
  proof (cases r)
    case Nil
    with 2 show ?thesis by simp
  next
    case (Cons b r0)
    show ?thesis
    proof (cases "a = CHR ''*'' \<and> b = CHR ''/''")
      case True
      with 2 Cons show ?thesis by simp
    next
      case False
      with 2 Cons obtain body' where "block_comment_end r = Some (body', r)"
        by (auto split: option.splits)
      then show ?thesis
        using block_comment_end_length [of r body' r] by simp
    qed
  qed
next
  case (3 a b y)
  show ?case
  proof (cases "a = CHR ''*'' \<and> b = CHR ''/''")
    case True
    with "3.prems" show ?thesis by simp
  next
    case False
    with "3.prems" obtain body' where body': "block_comment_end (b # y @ r) = Some (body', r)"
      and body: "body = a # body'"
      by (auto split: option.splits)
    from "3.IH"(2) [of body'] body'
    have "block_comment_end (b # y @ r') = Some (body', r')" by simp
    with False body show ?thesis by simp
  qed
qed

lemma lex_comment_context:
  assumes step: "lex_comment (y @ r) = StepToken t r"
    and stop: "take 1 y = ''/'' \<Longrightarrow> r' = [] \<or> \<not> not_newline (hd r')"
  shows "lex_comment (y @ r') = StepToken t r'"
proof (cases y)
  case Nil
  with step show ?thesis
    using lex_comment_length [of r t r] by simp
next
  case (Cons c y')
  show ?thesis
  proof (cases "c = CHR ''/''")
    case True
    with step Cons have "longest not_newline TokComment (y' @ r) = StepToken t r"
      by (simp add: lex_comment_def)
    moreover have "r' = [] \<or> \<not> not_newline (hd r')"
      using stop True Cons by simp
    ultimately have "longest not_newline TokComment (y' @ r') = StepToken t r'"
      by (rule longest_context)
    with True Cons show ?thesis by (simp add: lex_comment_def)
  next
    case False
    with step Cons obtain body where star: "c = CHR ''*''"
      and end_r: "block_comment_end (y' @ r) = Some (body, r)" and t: "t = TokComment body"
      by (auto simp: lex_comment_def split: if_splits option.splits)
    from end_r have "block_comment_end (y' @ r') = Some (body, r')"
      by (rule block_comment_end_context)
    with star t Cons show ?thesis by (simp add: lex_comment_def)
  qed
qed

lemma lex_string_context:
  assumes step: "lex_string q (y @ r) = StepToken t r"
  shows "lex_string q (y @ r') = StepToken t r'"
proof -
  let ?P = "\<lambda>c. c \<noteq> q"
  from step have q: "q \<in> set (y @ r)" and t: "t = TokUtf8 (takeWhile ?P (y @ r))"
    and rest: "tl (dropWhile ?P (y @ r)) = r"
    by (auto simp: lex_string_def split: if_splits)
  from q have "dropWhile ?P (y @ r) \<noteq> []" by simp
  then obtain h where dw: "dropWhile ?P (y @ r) = h # r"
    using rest by (cases "dropWhile ?P (y @ r)") auto
  then have "\<not> ?P h"
    using hd_dropWhile [of ?P "y @ r"] by simp
  then have h: "h = q" by simp
  have "takeWhile ?P (y @ r) @ dropWhile ?P (y @ r) = y @ r"
    by simp
  then have "(takeWhile ?P (y @ r) @ [q]) @ r = y @ r"
    by (simp add: dw h)
  then have y: "y = takeWhile ?P (y @ r) @ [q]"
    by simp
  define body where "body = takeWhile ?P (y @ r)"
  have body: "\<And>c. c \<in> set body \<Longrightarrow> c \<noteq> q"
    unfolding body_def by (auto dest: set_takeWhileD)
  have y': "y = body @ [q]"
    unfolding body_def by (rule y)
  have t': "t = TokUtf8 body"
    unfolding body_def by (rule t)
  have "takeWhile ?P (body @ q # r') = body" and "dropWhile ?P (body @ q # r') = q # r'"
    using body by simp_all
  then show ?thesis
    by (simp add: lex_string_def y' t')
qed

lemma lex_evaluation_open_context:
  assumes "lex_evaluation_open (y @ r) = StepToken t r"
  shows "lex_evaluation_open (y @ r') = StepToken t r'"
proof (cases y)
  case Nil
  with assms show ?thesis
    using lex_evaluation_open_length [of r t r] by simp
next
  case (Cons p y')
  with assms show ?thesis
    by (auto simp: lex_evaluation_open_def split: if_splits)
qed

subsection \<open>One lexer step in a changed context\<close>

lemma lex1_Cons:
  "lex1 (c # cs) =
     (if is_whitespace c then StepSkip cs
      else if c = CHR ''/'' then lex_comment cs
      else if c = CHR ''<'' then StepToken TokPushOpen cs
      else if c = CHR ''>'' then StepToken TokPushClose cs
      else if c = CHR ''$'' then lex_evaluation_open cs
      else if c = CHR '')'' then StepToken TokEvaluationClose cs
      else if c = CHR 0x27 \<or> c = CHR 0x22 then lex_string c cs
      else if c = CHR ''0'' \<and> take 1 cs = ''x'' then longest is_hex_digit TokHex (tl cs)
      else if is_digit c then
        longest is_digit (\<lambda>ds. TokBigInt (int (decimal_value (c # ds)))) cs
      else if c = CHR ''-'' \<and> starts_with_digit cs then
        longest is_digit (\<lambda>ds. TokBigInt (- int (decimal_value ds))) cs
      else if is_identifier_start c then
        longest is_identifier_char (\<lambda>name. TokIdentifier (c # name)) cs
      else StepFail)"
  by (simp add: lex1_def)

lemma slash_in_no_class:
  "\<not> is_digit CHR ''/''" "\<not> is_hex_digit CHR ''/''" "\<not> is_identifier_char CHR ''/''"
  by (simp_all add: is_digit_def is_hex_digit_def is_identifier_char_def is_identifier_start_def)

lemma lex1_token_context:
  assumes step: "lex1 (x @ r) = StepToken t r" and stands: "stands_for x r r'"
  shows "lex1 (x @ r') = StepToken t r'"
proof -
  from step have "x \<noteq> []"
    using lex1_token_length [of r t r] by auto
  then obtain c x' where x: "x = c # x'"
    by (cases x) auto
  from stands have r': "r' \<noteq> []"
    and alt: "hd r' = CHR ''/'' \<and> take 2 x \<noteq> ''//'' \<or> r \<noteq> [] \<and> hd r' = hd r"
    by (simp_all add: stands_for_def)
  have run: "longest P build (y @ r') = StepToken t r'"
    if "longest P build (y @ r) = StepToken t r" and "\<not> P CHR ''/''" for P build y
  proof -
    from longest_stop [OF that(1)] have "r = [] \<or> \<not> P (hd r)" .
    with alt that(2) have "\<not> P (hd r')" by auto
    then have "r' = [] \<or> \<not> P (hd r')" ..
    with that(1) show ?thesis by (rule longest_context)
  qed
  have first: "take 1 (x' @ r') = take 1 (x' @ r)" if "x' \<noteq> [] \<or> c \<noteq> CHR ''/'' \<and> take 1 r \<noteq> ''x''"
    "take 1 (x' @ r) = ''x'' \<or> take 1 (x' @ r') = ''x''"
  proof (cases x')
    case Nil
    with that alt r' x show ?thesis
      by (cases r; cases r') auto
  next
    case (Cons a x'')
    then show ?thesis by simp
  qed
  from step have casc: "lex1 (c # x' @ r) = StepToken t r"
    by (simp add: x)
  show ?thesis
  proof (cases "is_whitespace c")
    case True
    with casc show ?thesis by (simp add: lex1_Cons)
  next
    case ws: False
    show ?thesis
    proof (cases "c = CHR ''/''")
      case True
      with ws casc have com: "lex_comment (x' @ r) = StepToken t r"
        by (simp add: lex1_Cons)
      have "r' = [] \<or> \<not> not_newline (hd r')" if "take 1 x' = ''/''"
      proof -
        from that True x have "take 2 x = ''//''"
          by (cases x') auto
        with alt have same: "r \<noteq> []" "hd r' = hd r" by auto
        from that obtain x'' where x'': "x' = CHR ''/'' # x''"
          by (cases x') auto
        with com have "longest not_newline TokComment (x'' @ r) = StepToken t r"
          by (simp add: lex_comment_def)
        from longest_stop [OF this] same show ?thesis by auto
      qed
      with com have "lex_comment (x' @ r') = StepToken t r'"
        by (rule lex_comment_context)
      with ws True show ?thesis by (simp add: x lex1_Cons)
    next
      case slash: False
      show ?thesis
      proof (cases "c = CHR ''<'' \<or> c = CHR ''>'' \<or> c = CHR '')''")
        case True
        with ws slash casc have "x' = []"
          by (auto simp: lex1_Cons split: if_splits)
        with ws slash casc True show ?thesis
          by (auto simp: x lex1_Cons split: if_splits)
      next
        case bracket: False
        show ?thesis
        proof (cases "c = CHR ''$''")
          case True
          with ws slash casc have "lex_evaluation_open (x' @ r) = StepToken t r"
            by (simp add: lex1_Cons)
          then have "lex_evaluation_open (x' @ r') = StepToken t r'"
            by (rule lex_evaluation_open_context)
          with ws True show ?thesis by (simp add: x lex1_Cons)
        next
          case dollar: False
          show ?thesis
          proof (cases "c = CHR 0x27 \<or> c = CHR 0x22")
            case True
            with ws slash bracket dollar casc have "lex_string c (x' @ r) = StepToken t r"
              by (auto simp: lex1_Cons)
            then have "lex_string c (x' @ r') = StepToken t r'"
              by (rule lex_string_context)
            with ws slash bracket dollar True show ?thesis
              by (auto simp: x lex1_Cons)
          next
            case quote: False
            note plain = ws slash bracket dollar quote
            show ?thesis
            proof (cases "c = CHR ''0'' \<and> take 1 (x' @ r) = ''x''")
              case True
              with plain casc have hex: "longest is_hex_digit TokHex (tl (x' @ r)) = StepToken t r"
                by (auto simp: lex1_Cons)
              have "x' \<noteq> []"
              proof
                assume "x' = []"
                with hex have "longest is_hex_digit TokHex (tl r) = StepToken t r"
                  by simp
                from longest_length [OF this] have "length r \<le> length (tl r)" .
                moreover from True \<open>x' = []\<close> have "r \<noteq> []" by auto
                ultimately show False by (cases r) auto
              qed
              then obtain a x'' where x'': "x' = a # x''"
                by (cases x') auto
              with hex have "longest is_hex_digit TokHex (x'' @ r) = StepToken t r"
                by simp
              then have "longest is_hex_digit TokHex (x'' @ r') = StepToken t r'"
                by (rule run) (rule slash_in_no_class)
              with plain True x'' show ?thesis
                by (auto simp: x lex1_Cons)
            next
              case nohex: False
              have nohex': "\<not> (c = CHR ''0'' \<and> take 1 (x' @ r') = ''x'')"
              proof
                assume c0: "c = CHR ''0'' \<and> take 1 (x' @ r') = ''x''"
                with nohex have "take 1 (x' @ r) \<noteq> ''x''" by simp
                moreover have "take 1 (x' @ r') = take 1 (x' @ r)"
                proof (rule first)
                  show "x' \<noteq> [] \<or> c \<noteq> CHR ''/'' \<and> take 1 r \<noteq> ''x''"
                    using \<open>take 1 (x' @ r) \<noteq> ''x''\<close> slash by (cases x') auto
                  show "take 1 (x' @ r) = ''x'' \<or> take 1 (x' @ r') = ''x''"
                    using c0 by simp
                qed
                ultimately show False using c0 by simp
              qed
              show ?thesis
              proof (cases "is_digit c")
                case True
                with plain nohex casc
                have "longest is_digit (\<lambda>ds. TokBigInt (int (decimal_value (c # ds)))) (x' @ r) = StepToken t r"
                  by (auto simp: lex1_Cons)
                then have "longest is_digit (\<lambda>ds. TokBigInt (int (decimal_value (c # ds)))) (x' @ r') = StepToken t r'"
                  by (rule run) (rule slash_in_no_class)
                with plain nohex' True show ?thesis
                  by (auto simp: x lex1_Cons)
              next
                case digit: False
                show ?thesis
                proof (cases "c = CHR ''-''")
                  case True
                  then have noid: "\<not> is_identifier_start c"
                    by (simp add: is_identifier_start_def)
                  with plain nohex digit True casc have swd: "starts_with_digit (x' @ r)"
                    and neg: "longest is_digit (\<lambda>ds. TokBigInt (- int (decimal_value ds))) (x' @ r) = StepToken t r"
                    by (auto simp: lex1_Cons split: if_splits)
                  have "x' \<noteq> []"
                  proof
                    assume "x' = []"
                    with neg have "longest is_digit (\<lambda>ds. TokBigInt (- int (decimal_value ds))) ([] @ r) = StepToken t r"
                      by simp
                    from longest_stop [OF this] have "r = [] \<or> \<not> is_digit (hd r)" .
                    with swd \<open>x' = []\<close> show False
                      by (cases r) (auto simp: starts_with_digit_def)
                  qed
                  with swd have swd': "starts_with_digit (x' @ r')"
                    by (cases x') (auto simp: starts_with_digit_def)
                  from neg have "longest is_digit (\<lambda>ds. TokBigInt (- int (decimal_value ds))) (x' @ r') = StepToken t r'"
                    by (rule run) (rule slash_in_no_class)
                  with plain nohex' digit True swd' show ?thesis
                    by (auto simp: x lex1_Cons)
                next
                  case minus: False
                  with plain nohex digit casc
                  have idstart: "is_identifier_start c"
                    and ident: "longest is_identifier_char (\<lambda>name. TokIdentifier (c # name)) (x' @ r) = StepToken t r"
                    by (auto simp: lex1_Cons split: if_splits)
                  from ident have "longest is_identifier_char (\<lambda>name. TokIdentifier (c # name)) (x' @ r') = StepToken t r'"
                    by (rule run) (rule slash_in_no_class)
                  with plain nohex' digit minus idstart show ?thesis
                    by (auto simp: x lex1_Cons)
                qed
              qed
            qed
          qed
        qed
      qed
    qed
  qed
qed


subsection \<open>Token boundaries\<close>

lemma compile_significant:
  "compile env s =
     (case significant s of
        Inl e \<Rightarrow> Inl e
      | Inr ts \<Rightarrow> (case parse ts of Inl e \<Rightarrow> Inl e | Inr program \<Rightarrow> generate env program))"
  by (simp add: compile_def significant_def split: sum.splits)

lemma significant_skip: "lex1 s = StepSkip r \<Longrightarrow> significant s = significant r"
  by (subst (1) significant_def, subst tokenize.simps) (simp add: significant_def)

lemma significant_token:
  "lex1 s = StepToken t r \<Longrightarrow>
   significant s =
     (case significant r of Inl e \<Rightarrow> Inl e | Inr ts \<Rightarrow> Inr (if is_comment t then ts else t # ts))"
  by (subst (1) significant_def, subst tokenize.simps)
     (simp add: significant_def remove_comments_def split: sum.splits)

lemma significant_comment:
  "lex1 s = StepToken t r \<Longrightarrow> is_comment t \<Longrightarrow> significant s = significant r"
  by (simp add: significant_token split: sum.splits)

lemma block_comment_end_suffix:
  "block_comment_end s = Some (body, rest) \<Longrightarrow> \<exists>x. s = x @ rest"
proof (induction s arbitrary: body rule: block_comment_end.induct)
  case (1 a b r)
  show ?case
  proof (cases "a = CHR ''*'' \<and> b = CHR ''/''")
    case True
    with "1.prems" have "a # b # r = [a, b] @ rest" by simp
    then show ?thesis ..
  next
    case False
    with "1.prems" obtain body' where "block_comment_end (b # r) = Some (body', rest)"
      by (auto split: option.splits)
    with "1.IH" False obtain x where "b # r = x @ rest" by blast
    then have "a # b # r = (a # x) @ rest" by simp
    then show ?thesis ..
  qed
qed simp_all

lemma dropWhile_suffix: "\<exists>x. cs = x @ dropWhile P cs"
  by (metis takeWhile_dropWhile_id)

lemma tl_suffix: "\<exists>x. cs = x @ tl cs"
  by (cases cs) (auto intro: exI [of _ "[]"] exI [of _ "[hd cs]"])

lemma suffix_trans: "\<exists>x. cs = x @ m \<Longrightarrow> \<exists>y. m = y @ r \<Longrightarrow> \<exists>z. cs = z @ r"
  by (metis append.assoc)

lemma suffix_Cons: "\<exists>x. cs = x @ r \<Longrightarrow> \<exists>z. c # cs = z @ r"
  by (metis append_Cons)

lemma longest_suffix: "longest P build cs = StepToken t r \<Longrightarrow> \<exists>x. cs = x @ r"
  using dropWhile_suffix [of cs P] by (auto simp: longest_def)

lemma lex_comment_suffix: "lex_comment cs = StepToken t r \<Longrightarrow> \<exists>x. cs = x @ r"
proof (cases cs)
  case Nil
  assume "lex_comment cs = StepToken t r"
  with Nil show ?thesis by (simp add: lex_comment_def)
next
  case (Cons c cs')
  assume "lex_comment cs = StepToken t r"
  with Cons have "\<exists>x. cs' = x @ r"
    by (auto simp: lex_comment_def split: if_splits option.splits
          dest: longest_suffix block_comment_end_suffix)
  with Cons show ?thesis by (simp add: suffix_Cons)
qed

lemma lex_string_suffix: "lex_string q cs = StepToken t r \<Longrightarrow> \<exists>x. cs = x @ r"
proof -
  assume "lex_string q cs = StepToken t r"
  then have r: "r = tl (dropWhile (\<lambda>c. c \<noteq> q) cs)"
    by (auto simp: lex_string_def split: if_splits)
  show ?thesis
    unfolding r by (rule suffix_trans [OF dropWhile_suffix tl_suffix])
qed

lemma lex_evaluation_open_suffix: "lex_evaluation_open cs = StepToken t r \<Longrightarrow> \<exists>x. cs = x @ r"
  by (cases cs) (auto simp: lex_evaluation_open_def split: if_splits)

lemma lex1_token_suffix:
  assumes "lex1 s = StepToken t r"
  shows "\<exists>x. s = x @ r"
proof (cases s)
  case Nil
  with assms show ?thesis by (simp add: lex1_def)
next
  case (Cons c cs)
  have tl: "\<exists>x. cs = x @ r" if "longest P build (tl cs) = StepToken t r" for P build
    by (rule suffix_trans [OF tl_suffix longest_suffix [OF that]])
  from assms have "\<exists>x. cs = x @ r"
    unfolding Cons lex1_Cons
    by (auto split: if_splits
          dest: lex_comment_suffix lex_string_suffix lex_evaluation_open_suffix longest_suffix tl
          intro: exI [of _ "[]"])
  with Cons show ?thesis by (simp add: suffix_Cons)
qed

lemma lex1_skip_suffix: "lex1 s = StepSkip r \<Longrightarrow> \<exists>c. s = c # r \<and> is_whitespace c"
  by (cases s)
     (auto simp: lex1_Cons lex1_def lex_comment_def lex_string_def lex_evaluation_open_def longest_def
        split: if_splits list.splits option.splits)

lemma lexer_reaches_suffix: "lexer_reaches s r \<Longrightarrow> \<exists>x. s = x @ r"
proof (induction rule: lexer_reaches.induct)
  case (here s)
  have "s = [] @ s" by simp
  then show ?case ..
next
  case (skip s r r')
  from lex1_skip_suffix [OF skip.hyps(1)] have "\<exists>x. s = x @ r"
    by (auto intro: exI [of _ "[_]"])
  then show ?case using skip.IH by (rule suffix_trans)
next
  case (token s t r r')
  from lex1_token_suffix [OF token.hyps(1)] show ?case
    using token.IH by (rule suffix_trans)
qed

lemma lexer_reaches_step:
  assumes "lexer_reaches s r'" and "s \<noteq> r'"
  shows "(\<exists>r. lex1 s = StepSkip r \<and> lexer_reaches r r')
       \<or> (\<exists>t r. lex1 s = StepToken t r \<and> lexer_reaches r r')"
  using assms by (cases rule: lexer_reaches.cases) auto

subsection \<open>Two scripts with the same beginning\<close>

lemma blank_significant: "blank r s \<Longrightarrow> significant r = significant s"
proof (induction rule: blank.induct)
  case (here s)
  show ?case ..
next
  case (skip s r r')
  from skip.hyps(1) have "significant s = significant r"
    by (rule significant_skip)
  with skip.IH show ?case by simp
next
  case (comment s t r r')
  from comment.hyps(1,2) have "significant s = significant r"
    by (rule significant_comment)
  with comment.IH show ?case by simp
qed

lemma line_comment_token:
  assumes step: "lex1 (x @ r) = StepToken t r" and line: "take 2 x = ''//''"
  shows "t = TokComment (drop 2 x)"
proof -
  from line obtain x'' where x: "x = CHR ''/'' # CHR ''/'' # x''"
    by (cases x; cases "tl x") auto
  from step have run: "longest not_newline TokComment (x'' @ r) = StepToken t r"
    by (simp add: x lex1_Cons is_whitespace_def lex_comment_def)
  from run [unfolded longest_eq] have t: "t = TokComment (takeWhile not_newline (x'' @ r))"
    and rest: "dropWhile not_newline (x'' @ r) = r"
    by blast+
  have "takeWhile not_newline (x'' @ r) @ dropWhile not_newline (x'' @ r) = x'' @ r"
    by (rule takeWhile_dropWhile_id)
  then have "takeWhile not_newline (x'' @ r) @ r = x'' @ r"
    by (simp only: rest)
  then have "takeWhile not_newline (x'' @ r) = x''"
    by simp
  then show ?thesis
    by (simp add: t x)
qed

lemma lex1_token_same:
  assumes one: "lex1 (x @ r) = StepToken t r" and two: "lex1 (x @ r') = StepToken t' r'"
  shows "t = t'"
proof (cases "take 2 x = ''//''")
  case True
  from line_comment_token [OF one True] line_comment_token [OF two True]
  show ?thesis by simp
next
  case False
  then have "stands_for x r ''/''" and "stands_for x r' ''/''"
    by (simp_all add: stands_for_def)
  with one two have "lex1 (x @ ''/'') = StepToken t ''/''" and "lex1 (x @ ''/'') = StepToken t' ''/''"
    by (auto intro: lex1_token_context)
  then show ?thesis by simp
qed

lemma lex1_token_not_whitespace:
  "lex1 (c # cs) = StepToken t r \<Longrightarrow> \<not> is_whitespace c"
  by (auto simp: lex1_Cons)

lemma lex1_token_parallel:
  assumes one: "lex1 (x @ q @ r) = StepToken t (q @ r)"
    and two: "lexer_reaches (x @ q @ r') r'"
  shows "lex1 (x @ q @ r') = StepToken t (q @ r')"
proof (cases q)
  case (Cons h q')
  then have "stands_for x (q @ r) (q @ r')"
    by (simp add: stands_for_def)
  with one show ?thesis by (rule lex1_token_context)
next
  case Nil
  from one have "x \<noteq> []"
    using lex1_token_length [of "q @ r" t "q @ r"] by auto
  then obtain c x' where x: "x = c # x'"
    by (cases x) auto
  from one have c: "\<not> is_whitespace c"
    unfolding x by (simp add: lex1_token_not_whitespace)
  have "x @ q @ r' \<noteq> r'"
    by (simp add: x)
  from lexer_reaches_step [OF two this]
  have "(\<exists>r2. lex1 (x @ r') = StepSkip r2 \<and> lexer_reaches r2 r')
      \<or> (\<exists>t2 r2. lex1 (x @ r') = StepToken t2 r2 \<and> lexer_reaches r2 r')"
    by (simp add: Nil)
  moreover have "lex1 (x @ r') \<noteq> StepSkip r2" for r2
  proof
    assume "lex1 (x @ r') = StepSkip r2"
    from lex1_skip_suffix [OF this] c show False
      by (auto simp: x)
  qed
  ultimately obtain t2 r2 where step2: "lex1 (x @ r') = StepToken t2 r2"
    and reach2: "lexer_reaches r2 r'"
    by blast
  from lex1_token_suffix [OF step2] obtain x2 where x2: "x @ r' = x2 @ r2" ..
  from lexer_reaches_suffix [OF reach2] obtain p2 where p2: "r2 = p2 @ r'" ..
  from x2 p2 have split: "x = x2 @ p2" by simp
  have "p2 = []"
  proof (rule ccontr)
    assume "p2 \<noteq> []"
    then have stands: "stands_for x2 (p2 @ r') (p2 @ r)"
      by (cases p2) (simp_all add: stands_for_def)
    from step2 have "lex1 (x2 @ p2 @ r') = StepToken t2 (p2 @ r')"
      by (simp add: split p2)
    then have "lex1 (x2 @ p2 @ r) = StepToken t2 (p2 @ r)"
      using stands by (rule lex1_token_context)
    with one have "p2 @ r = r"
      by (simp add: split Nil)
    with \<open>p2 \<noteq> []\<close> show False by simp
  qed
  with step2 p2 have step2': "lex1 (x @ r') = StepToken t2 r'"
    by simp
  from one have "lex1 (x @ r) = StepToken t r"
    by (simp add: Nil)
  from lex1_token_same [OF this step2'] step2' show ?thesis
    by (simp add: Nil)
qed

lemma significant_parallel:
  "lexer_reaches s r \<Longrightarrow> s = p @ r \<Longrightarrow> lexer_reaches (p @ r') r' \<Longrightarrow>
   significant r = significant r' \<Longrightarrow> significant (p @ r) = significant (p @ r')"
proof (induction s r arbitrary: p rule: lexer_reaches.induct)
  case (here s)
  then have "p = []" by simp
  with here.prems show ?case by simp
next
  case (skip s r0 r)
  from lex1_skip_suffix [OF skip.hyps(1)] obtain w where s: "s = w # r0" and w: "is_whitespace w"
    by blast
  from lexer_reaches_suffix [OF skip.hyps(2)] obtain p' where r0: "r0 = p' @ r" ..
  from skip.prems(1) s r0 have p: "p = w # p'" by simp
  have step': "lex1 (p @ r') = StepSkip (p' @ r')"
    using w by (simp add: p lex1_Cons)
  have "p @ r' \<noteq> r'"
    by (simp add: p)
  from lexer_reaches_step [OF skip.prems(2) this] step'
  have "lexer_reaches (p' @ r') r'" by auto
  from skip.IH [OF r0 this skip.prems(3)]
  have "significant (p' @ r) = significant (p' @ r')" .
  moreover have "significant (p @ r') = significant (p' @ r')"
    using step' by (rule significant_skip)
  moreover have "significant (p @ r) = significant (p' @ r)"
    using skip.hyps(1) skip.prems(1) r0 by (simp add: significant_skip)
  ultimately show ?case by simp
next
  case (token s t r0 r)
  from lex1_token_suffix [OF token.hyps(1)] obtain x where s: "s = x @ r0" ..
  from lexer_reaches_suffix [OF token.hyps(2)] obtain p' where r0: "r0 = p' @ r" ..
  from token.prems(1) s r0 have p: "p = x @ p'" by simp
  from token.hyps(1) have x_ne: "x \<noteq> []"
    using lex1_token_length [of s t r0] by (auto simp: s)
  have one: "lex1 (x @ p' @ r) = StepToken t (p' @ r)"
    using token.hyps(1) by (simp add: s r0)
  from token.prems(2) have "lexer_reaches (x @ p' @ r') r'"
    by (simp add: p)
  with one have two: "lex1 (x @ p' @ r') = StepToken t (p' @ r')"
    by (rule lex1_token_parallel)
  have differ: "p @ r' \<noteq> r'"
    using x_ne by (simp add: p)
  from lexer_reaches_step [OF token.prems(2) differ] two
  have "lexer_reaches (p' @ r') r'"
    by (auto simp: p)
  from token.IH [OF r0 this token.prems(3)]
  have "significant (p' @ r) = significant (p' @ r')" .
  moreover have "significant (p @ r') =
      (case significant (p' @ r') of Inl e \<Rightarrow> Inl e
       | Inr ts \<Rightarrow> Inr (if is_comment t then ts else t # ts))"
    using two by (simp add: p significant_token)
  moreover have "significant (p @ r) =
      (case significant (p' @ r) of Inl e \<Rightarrow> Inl e
       | Inr ts \<Rightarrow> Inr (if is_comment t then ts else t # ts))"
    using one by (simp add: p significant_token)
  ultimately show ?case by simp
qed

subsection \<open>Comments between tokens\<close>

lemma block_comment_blank:
  assumes "block_comment_end (y @ b) = Some (body, b)"
  shows "blank (''/*'' @ y @ b) b"
proof -
  from assms have "lex1 (''/*'' @ y @ b) = StepToken (TokComment body) b"
    by (simp add: lex1_Cons is_whitespace_def lex_comment_def)
  moreover have "is_comment (TokComment body)"
    by (simp add: is_comment_def)
  ultimately show ?thesis
    using blank.here by (rule blank.comment)
qed

lemma line_comment_blank:
  assumes body: "\<forall>c \<in> set body. not_newline c" and stop: "b = [] \<or> \<not> not_newline (hd b)"
  shows "blank (''//'' @ body @ b) b"
proof -
  from stop have "takeWhile not_newline b = []" and "dropWhile not_newline b = b"
    by (cases b; simp)+
  with body have "lex1 (''//'' @ body @ b) = StepToken (TokComment body) b"
    by (simp add: lex1_Cons is_whitespace_def lex_comment_def longest_def)
  moreover have "is_comment (TokComment body)"
    by (simp add: is_comment_def)
  ultimately show ?thesis
    using blank.here by (rule blank.comment)
qed

text \<open>
  C6, as amended: comments are inert where the lexer reads them as comments. Two scripts
  \<open>p @ m @ s\<close> and \<open>p @ m' @ s\<close> have the same beginning \<open>p\<close> and the same end \<open>s\<close>; in
  both the lexer is between tokens after \<open>p\<close>, and it reads \<open>m\<close> in the one and \<open>m'\<close> in
  the other as comments and white space only, up to \<open>s\<close>. Then the two scripts compile to
  the same result: the same bytecode, or the same error. With \<open>m\<close> empty, \<open>m'\<close> is a line
  comment or a block comment inserted where the lexer is between tokens with it and
  without it (read from right to left, removed); with \<open>m\<close> a comment, \<open>m'\<close> is that
  comment with another one inside it or next to it. A line comment is comments and white
  space in front of the end of its line or of the script (\<open>line_comment_blank\<close>), a block
  comment in front of any text (\<open>block_comment_blank\<close>).
\<close>

theorem comments_inert:
  assumes "lexer_reaches (p @ m @ s) (m @ s)" and "blank (m @ s) s"
    and "lexer_reaches (p @ m' @ s) (m' @ s)" and "blank (m' @ s) s"
  shows "compile env (p @ m @ s) = compile env (p @ m' @ s)"
proof -
  from assms(2,4) have "significant (m @ s) = significant (m' @ s)"
    by (simp add: blank_significant)
  with assms(1) refl assms(3) have "significant (p @ m @ s) = significant (p @ m' @ s)"
    by (rule significant_parallel)
  then show ?thesis by (simp add: compile_significant)
qed

theorem comments_inert_witness:
  "lexer_reaches (''<1'' @ [] @ ''>'') ([] @ ''>'')
 \<and> blank ([] @ ''>'') ''>''
 \<and> lexer_reaches (''<1'' @ ''/* one */'' @ ''>'') (''/* one */'' @ ''>'')
 \<and> blank (''/* one */'' @ ''>'') ''>''
 \<and> compile no_resolution (''<1'' @ [] @ ''>'') = compile no_resolution (''<1'' @ ''/* one */'' @ ''>'')
 \<and> compile no_resolution (''<1'' @ [] @ ''>'') = Inr [0x51]
 \<and> compile no_resolution (''1'' @ [] @ [CHR 0x0A] @ ''2'')
     = compile no_resolution (''1'' @ ''// x'' @ [CHR 0x0A] @ ''2'')
 \<and> compile no_resolution (''1'' @ [] @ [CHR 0x0A] @ ''2'') = Inr [0x01, 0x02]
 \<and> compile no_resolution (''1 '' @ [] @ [])
     = compile no_resolution (''1 '' @ ''// end'' @ [])
 \<and> compile no_resolution (''1 '' @ [] @ []) = Inr [0x01]
 \<and> compile no_resolution ([] @ ''// a'' @ [CHR 0x0A] @ ''2'')
     = compile no_resolution ([] @ ''// a/* b */'' @ [CHR 0x0A] @ ''2'')
 \<and> compile no_resolution ([] @ ''// a'' @ [CHR 0x0A] @ ''2'') = Inr [0x02]"
proof -
  have 1: "lex1 (''<1'' @ [] @ ''>'') = StepToken TokPushOpen ''1>''"
    and 2: "lex1 ''1>'' = StepToken (TokBigInt 1) ([] @ ''>'')"
    by code_simp+
  have a1: "lexer_reaches (''<1'' @ [] @ ''>'') ([] @ ''>'')"
    by (rule lexer_reaches.token [OF 1 lexer_reaches.token [OF 2 lexer_reaches.here]])
  have a2: "blank ([] @ ''>'') ''>''"
    using blank.here [of "''>''"] by simp
  have 3: "lex1 (''<1'' @ ''/* one */'' @ ''>'') = StepToken TokPushOpen ''1/* one */>''"
    and 4: "lex1 ''1/* one */>'' = StepToken (TokBigInt 1) (''/* one */'' @ ''>'')"
    by code_simp+
  have a3: "lexer_reaches (''<1'' @ ''/* one */'' @ ''>'') (''/* one */'' @ ''>'')"
    by (rule lexer_reaches.token [OF 3 lexer_reaches.token [OF 4 lexer_reaches.here]])
  have 5: "lex1 (''/* one */'' @ ''>'') = StepToken (TokComment '' one '') ''>''"
    and c5: "is_comment (TokComment '' one '')"
    by code_simp+
  have a4: "blank (''/* one */'' @ ''>'') ''>''"
    by (rule blank.comment [OF 5 c5 blank.here])
  note a = comments_inert [OF a1 a2 a3 a4, of no_resolution]
  have a5: "compile no_resolution (''<1'' @ [] @ ''>'') = Inr [0x51]"
    by code_simp
  have 6: "lex1 (''1'' @ [] @ [CHR 0x0A] @ ''2'') = StepToken (TokBigInt 1) ([] @ [CHR 0x0A] @ ''2'')"
    by code_simp
  have b1: "lexer_reaches (''1'' @ [] @ [CHR 0x0A] @ ''2'') ([] @ [CHR 0x0A] @ ''2'')"
    by (rule lexer_reaches.token [OF 6 lexer_reaches.here])
  have b2: "blank ([] @ [CHR 0x0A] @ ''2'') ([CHR 0x0A] @ ''2'')"
    using blank.here [of "[CHR 0x0A] @ ''2''"] by simp
  have 7: "lex1 (''1'' @ ''// x'' @ [CHR 0x0A] @ ''2'') =
             StepToken (TokBigInt 1) (''// x'' @ [CHR 0x0A] @ ''2'')"
    by code_simp
  have b3: "lexer_reaches (''1'' @ ''// x'' @ [CHR 0x0A] @ ''2'') (''// x'' @ [CHR 0x0A] @ ''2'')"
    by (rule lexer_reaches.token [OF 7 lexer_reaches.here])
  have b4: "blank (''// x'' @ [CHR 0x0A] @ ''2'') ([CHR 0x0A] @ ''2'')"
    using line_comment_blank [of "'' x''" "[CHR 0x0A] @ ''2''"]
    by (simp add: not_newline_def)
  note b = comments_inert [OF b1 b2 b3 b4, of no_resolution]
  have 8: "lex1 (''1 '' @ [] @ []) = StepToken (TokBigInt 1) '' ''"
    and 9: "lex1 '' '' = StepSkip ([] @ [])"
    by code_simp+
  have c1: "lexer_reaches (''1 '' @ [] @ []) ([] @ [])"
    by (rule lexer_reaches.token [OF 8 lexer_reaches.skip [OF 9 lexer_reaches.here]])
  have c2: "blank ([] @ []) []"
    using blank.here [of "[]"] by simp
  have 10: "lex1 (''1 '' @ ''// end'' @ []) = StepToken (TokBigInt 1) '' // end''"
    and 11: "lex1 '' // end'' = StepSkip (''// end'' @ [])"
    by code_simp+
  have c3: "lexer_reaches (''1 '' @ ''// end'' @ []) (''// end'' @ [])"
    by (rule lexer_reaches.token [OF 10 lexer_reaches.skip [OF 11 lexer_reaches.here]])
  have c4: "blank (''// end'' @ []) []"
    using line_comment_blank [of "'' end''" "[]"]
    by (simp add: not_newline_def)
  note c = comments_inert [OF c1 c2 c3 c4, of no_resolution]
  have d1: "lexer_reaches ([] @ ''// a'' @ [CHR 0x0A] @ ''2'') (''// a'' @ [CHR 0x0A] @ ''2'')"
    using lexer_reaches.here [of "''// a'' @ [CHR 0x0A] @ ''2''"] by simp
  have d2: "blank (''// a'' @ [CHR 0x0A] @ ''2'') ([CHR 0x0A] @ ''2'')"
    using line_comment_blank [of "'' a''" "[CHR 0x0A] @ ''2''"]
    by (simp add: not_newline_def)
  have d3: "lexer_reaches ([] @ ''// a/* b */'' @ [CHR 0x0A] @ ''2'') (''// a/* b */'' @ [CHR 0x0A] @ ''2'')"
    using lexer_reaches.here [of "''// a/* b */'' @ [CHR 0x0A] @ ''2''"] by simp
  have d4: "blank (''// a/* b */'' @ [CHR 0x0A] @ ''2'') ([CHR 0x0A] @ ''2'')"
    using line_comment_blank [of "'' a/* b */''" "[CHR 0x0A] @ ''2''"]
    by (simp add: not_newline_def)
  note d = comments_inert [OF d1 d2 d3 d4, of no_resolution]
  have b5: "compile no_resolution (''1'' @ [] @ [CHR 0x0A] @ ''2'') = Inr [0x01, 0x02]"
    and c6: "compile no_resolution (''1 '' @ [] @ []) = Inr [0x01]"
    and d5: "compile no_resolution ([] @ ''// a'' @ [CHR 0x0A] @ ''2'') = Inr [0x02]"
    by code_simp+
  from a1 a2 a3 a4 a a5 b b5 c c6 d d5 show ?thesis
    by (intro conjI)
qed

text \<open>
  The claim as stated, "anywhere between tokens", fails in both directions. Removing
  the comment between the tokens \<^verbatim>\<open>1\<close> and \<^verbatim>\<open>2\<close> of \<^verbatim>\<open>1/**/2\<close> joins them into the one
  token \<^verbatim>\<open>12\<close>; and a block comment of two lines inserted behind the line comment
  \<^verbatim>\<open>// a\<close>, before the end of its line, is read as a part of that comment up to the end
  of the line only, and what follows is no token.
\<close>

theorem comment_removal_counterexample:
  "lexer_reaches (''1'' @ ''/**/'' @ ''2'') (''/**/'' @ ''2'')
 \<and> blank (''/**/'' @ ''2'') ''2''
 \<and> compile no_resolution (''1'' @ ''/**/'' @ ''2'') = Inr [0x01, 0x02]
 \<and> compile no_resolution (''1'' @ ''2'') = Inr [0x0c]
 \<and> lexer_reaches (''// a'' @ [CHR 0x0A] @ ''2'') ([CHR 0x0A] @ ''2'')
 \<and> blank ((''/*'' @ [CHR 0x0A] @ ''1*/'') @ [CHR 0x0A] @ ''2'') ([CHR 0x0A] @ ''2'')
 \<and> compile no_resolution (''// a'' @ [CHR 0x0A] @ ''2'') = Inr [0x02]
 \<and> compile no_resolution (''// a'' @ (''/*'' @ [CHR 0x0A] @ ''1*/'') @ [CHR 0x0A] @ ''2'') = Inl LexError"
proof -
  have 1: "lex1 (''1'' @ ''/**/'' @ ''2'') = StepToken (TokBigInt 1) (''/**/'' @ ''2'')"
    and 2: "lex1 (''/**/'' @ ''2'') = StepToken (TokComment []) ''2''"
    and c2: "is_comment (TokComment [])"
    by code_simp+
  have "lexer_reaches (''1'' @ ''/**/'' @ ''2'') (''/**/'' @ ''2'')"
    by (rule lexer_reaches.token [OF 1 lexer_reaches.here])
  moreover have "blank (''/**/'' @ ''2'') ''2''"
    by (rule blank.comment [OF 2 c2 blank.here])
  moreover have "compile no_resolution (''1'' @ ''/**/'' @ ''2'') = Inr [0x01, 0x02]"
    and "compile no_resolution (''1'' @ ''2'') = Inr [0x0c]"
    by code_simp+
  moreover have 3: "lex1 (''// a'' @ [CHR 0x0A] @ ''2'') = StepToken (TokComment '' a'') ([CHR 0x0A] @ ''2'')"
    by code_simp
  have "lexer_reaches (''// a'' @ [CHR 0x0A] @ ''2'') ([CHR 0x0A] @ ''2'')"
    by (rule lexer_reaches.token [OF 3 lexer_reaches.here])
  moreover have 4: "lex1 ((''/*'' @ [CHR 0x0A] @ ''1*/'') @ [CHR 0x0A] @ ''2'') =
      StepToken (TokComment ([CHR 0x0A] @ ''1'')) ([CHR 0x0A] @ ''2'')"
    and c4: "is_comment (TokComment ([CHR 0x0A] @ ''1''))"
    by code_simp+
  have "blank ((''/*'' @ [CHR 0x0A] @ ''1*/'') @ [CHR 0x0A] @ ''2'') ([CHR 0x0A] @ ''2'')"
    by (rule blank.comment [OF 4 c4 blank.here])
  moreover have "compile no_resolution (''// a'' @ [CHR 0x0A] @ ''2'') = Inr [0x02]"
    and "compile no_resolution (''// a'' @ (''/*'' @ [CHR 0x0A] @ ''1*/'') @ [CHR 0x0A] @ ''2'') = Inl LexError"
    by code_simp+
  ultimately show ?thesis by (intro conjI)
qed

end
